theory Spec2Isabelle
  imports Main "HOL-Library.Word" "HOL-Library.Stream"
begin

unbundle bit_operations_syntax

section \<open>Data model\<close>

text \<open>
  The package \<open>shamirsplit\<close> (file \<open>shamirsplit.go\<close>) has three functions: \<open>Split\<close>,
  \<open>Join\<close> and the unexported sampler \<open>randomNumber\<close>.

  \<^item> A \<open>*big.Int\<close> is an unbounded integer: \<open>int\<close>.
  \<^item> A Go \<open>int\<close> (the parameters \<open>k\<close>, \<open>n\<close> and the entries of \<open>shareNumbers\<close>) is a
    64-bit two's complement number, \<open>64 word\<close> read with \<open>sint\<close>; \<open>+\<close> wraps.
  \<^item> A \<open>byte\<close> is an \<open>8 word\<close>.
  \<^item> The \<open>io.Reader\<close> is seen through \<open>io.ReadFull\<close>, the only way the package reads it:
    it is the stream of events the reader will deliver, each one either a byte or the
    error with which the read fails at that point. The stream is infinite, so a reader
    that never fails and never ends is a stream of bytes only.
  \<^item> Every \<open>errors.New\<close> of the source is a constructor of \<open>error\<close>; the two run-time
    panics the source can raise (indexing an empty slice, \<open>big.Int.Mod\<close> by zero) are
    constructors as well, so that they are results of the model and not unspecified values.
\<close>

type_synonym goint = "64 word"
type_synonym byte = "8 word"
type_synonym 'e reader = "('e + byte) stream"

datatype 'e error =
    InvalidParameters       \<comment> \<open>"invalid split parameters"\<close>
  | SecretTooLarge          \<comment> \<open>"secret must be less than split modulus"\<close>
  | LengthMismatch          \<comment> \<open>"lengths of shares and shareNumbers must match"\<close>
  | NegativeShareNumber     \<comment> \<open>"found negative share number"\<close>
  | RandomSourceFailure 'e  \<comment> \<open>the error returned by \<open>io.ReadFull\<close>\<close>
  | PanicIndexOutOfRange    \<comment> \<open>run-time panic: index out of range\<close>
  | PanicDivisionByZero     \<comment> \<open>run-time panic: division by zero in \<open>big.Int.Mod\<close>\<close>

section \<open>Library functions used by the package\<close>

text \<open>
  \<open>io.ReadFull(rand, buf)\<close> with \<open>len(buf) = k\<close>: reads exactly \<open>k\<close> bytes, or returns the
  error of the read that failed. With \<open>k = 0\<close> it returns at once without reading.
\<close>

primrec readFull :: "nat \<Rightarrow> 'e reader \<Rightarrow> ('e + byte list) \<times> 'e reader" where
  "readFull 0 rd = (Inr [], rd)"
| "readFull (Suc k) rd =
     (case shd rd of
        Inl e \<Rightarrow> (Inl e, stl rd)
      | Inr b \<Rightarrow>
          (case readFull k (stl rd) of
             (Inl e, rd') \<Rightarrow> (Inl e, rd')
           | (Inr bs, rd') \<Rightarrow> (Inr (b # bs), rd')))"

text \<open>\<open>big.Int.BitLen\<close>: the length of the absolute value in bits; the bit length of 0 is 0.\<close>

fun bitLenNat :: "nat \<Rightarrow> nat" where
  "bitLenNat n = (if n = 0 then 0 else Suc (bitLenNat (n div 2)))"

declare bitLenNat.simps [simp del]

definition BitLen :: "int \<Rightarrow> nat" where
  "BitLen v = bitLenNat (nat \<bar>v\<bar>)"

text \<open>\<open>big.Int.SetBytes\<close>: the bytes as a big-endian unsigned integer.\<close>

definition SetBytes :: "byte list \<Rightarrow> int" where
  "SetBytes bs = foldl (\<lambda>acc b. acc * 256 + uint b) 0 bs"

text \<open>
  \<open>big.Int.Mod(x, y)\<close> is the Euclidean modulus: for \<open>y \<noteq> 0\<close> the result is in
  \<open>[0, |y|)\<close>; for \<open>y = 0\<close> a division-by-zero run-time panic occurs, which the callers
  below test before they use \<open>bigMod\<close>.
\<close>

definition bigMod :: "int \<Rightarrow> int \<Rightarrow> int" where
  "bigMod x y = x mod \<bar>y\<bar>"

text \<open>
  \<open>big.Int.GCD(x, y, a, b)\<close> sets \<open>x\<close> and \<open>y\<close> such that \<open>gcd = a*x + b*y\<close>; \<open>Join\<close> uses
  \<open>x\<close> only. The library documents: if \<open>a = 0\<close> then \<open>x = 0\<close>; if \<open>a \<noteq> 0\<close> and \<open>b = 0\<close>
  then \<open>x = sign a\<close>; otherwise the cofactors are those of the extended Euclidean
  algorithm run on \<open>|a|\<close> and \<open>|b|\<close>, with the sign of \<open>a\<close> given to \<open>x\<close>.
  \<open>egcd\<close> is that algorithm; it returns both cofactors. (Releases of the library
  before Go 1.14 set \<open>x = 0\<close> whenever \<open>a \<le> 0\<close> or \<open>b \<le> 0\<close>; for \<open>a > 0\<close> and \<open>b > 0\<close>,
  the case of a share difference normalised against a positive modulus, all releases
  agree.)
\<close>

fun egcd :: "nat \<Rightarrow> nat \<Rightarrow> int \<times> int" where
  "egcd a b =
     (if b = 0 then (1, 0)
      else (let (x, y) = egcd b (a mod b) in (y, x - int (a div b) * y)))"

declare egcd.simps [simp del]

definition GCD_x :: "int \<Rightarrow> int \<Rightarrow> int" where
  "GCD_x a b =
     (if a = 0 then 0
      else if b = 0 then sgn a
      else sgn a * fst (egcd (nat \<bar>a\<bar>) (nat \<bar>b\<bar>)))"

text \<open>
  A \<open>big.Int\<close> is a magnitude and a sign flag, and \<open>x.Cmp(zero) < 0\<close> reads the flag: it
  holds exactly when the flag of \<open>x\<close> is set (\<open>zero\<close> has it clear). \<open>GCD\<close> copies the
  cofactor of \<open>|a|\<close> into \<open>x\<close> and, for a negative \<open>a\<close>, inverts the flag without looking
  at the magnitude (\<open>x.neg = !x.neg\<close>): when \<open>a\<close> is negative and the cofactor is zero,
  \<open>x\<close> is a zero with the flag set. \<open>GCD_x_neg a b\<close> is the flag of \<open>x\<close> after
  \<open>GCD(x, y, a, b)\<close>; the cofactor itself comes out of the library's arithmetic, which
  sets the flag of a result exactly when the result is negative.
\<close>

definition GCD_x_neg :: "int \<Rightarrow> int \<Rightarrow> bool" where
  "GCD_x_neg a b =
     (if a = 0 then False
      else if b = 0 then a < 0
      else if a < 0 then \<not> fst (egcd (nat \<bar>a\<bar>) (nat \<bar>b\<bar>)) < 0
      else fst (egcd (nat \<bar>a\<bar>) (nat \<bar>b\<bar>)) < 0)"

section \<open>The sampler: \<open>randomNumber\<close>\<close>

text \<open>
  The \<open>for\<close> loop of \<open>randomNumber\<close>. It has no bound on its iterations, so it is a
  partial function: \<open>None\<close> is the run that never returns. \<open>k\<close> is the length of the
  buffer and \<open>r\<close> the number of bits kept in its first byte. Indexing \<open>bytes[0]\<close> of
  an empty buffer panics.
\<close>

partial_function (option) randomLoop ::
  "nat \<Rightarrow> nat \<Rightarrow> int \<Rightarrow> 'e reader \<Rightarrow> (('e error + int) \<times> 'e reader) option" where
  "randomLoop k r mx rd =
     (case readFull k rd of
        (Inl e, rd') \<Rightarrow> Some (Inl (RandomSourceFailure e), rd')
      | (Inr bytes, rd') \<Rightarrow>
          (case bytes of
             [] \<Rightarrow> Some (Inl PanicIndexOutOfRange, rd')
           | b # bs \<Rightarrow>
               (let n = SetBytes ((b AND word_of_int (2 ^ r - 1)) # bs)
                in if n < mx then Some (Inr n, rd') else randomLoop k r mx rd')))"

definition randomNumber :: "'e reader \<Rightarrow> int \<Rightarrow> (('e error + int) \<times> 'e reader) option" where
  "randomNumber rd mx =
     (let k = (BitLen mx + 7) div 8;
          r = BitLen mx mod 8;
          r = (if r = 0 then 8 else r)
      in randomLoop k r mx rd)"

section \<open>\<open>Split\<close>\<close>

text \<open>
  The first loop of \<open>Split\<close> fills \<open>a[1]\<close>, ..., \<open>a[k-1]\<close>, in this order, each with
  one call of \<open>randomNumber(rand, modulus - 1)\<close> plus one, and returns at the first
  error. \<open>coefficients mm1 c rd\<close> is that loop with \<open>c\<close> iterations left.
\<close>

primrec coefficients ::
  "int \<Rightarrow> nat \<Rightarrow> 'e reader \<Rightarrow> (('e error + int list) \<times> 'e reader) option" where
  "coefficients mm1 0 rd = Some (Inr [], rd)"
| "coefficients mm1 (Suc c) rd =
     (case randomNumber rd mm1 of
        None \<Rightarrow> None
      | Some (Inl e, rd') \<Rightarrow> Some (Inl e, rd')
      | Some (Inr r, rd') \<Rightarrow>
          (case coefficients mm1 c rd' of
             None \<Rightarrow> None
           | Some (Inl e, rd'') \<Rightarrow> Some (Inl e, rd'')
           | Some (Inr rs, rd'') \<Rightarrow> Some (Inr ((r + 1) # rs), rd'')))"

text \<open>The inner loop of the second loop: \<open>t\<close> is the sum of \<open>i^j * a[j]\<close> for \<open>j < k\<close>.\<close>

definition evalAt :: "int list \<Rightarrow> int \<Rightarrow> int" where
  "evalAt a i = (\<Sum>j\<leftarrow>[0..<length a]. i ^ j * a ! j)"

text \<open>The second loop, over \<open>i = 1, ..., n\<close>; \<open>t.Mod(t, modulus)\<close> panics for a zero modulus.\<close>

fun shareLoop :: "int list \<Rightarrow> int \<Rightarrow> int list \<Rightarrow> 'e error + int list" where
  "shareLoop a m [] = Inr []"
| "shareLoop a m (i # is) =
     (if m = 0 then Inl PanicDivisionByZero
      else (case shareLoop a m is of
              Inl e \<Rightarrow> Inl e
            | Inr ss \<Rightarrow> Inr (bigMod (evalAt a i) m # ss)))"

text \<open>
  \<open>Split\<close> returns its result and the reader as it has left it. In Go the result is the
  pair \<open>(shares, err)\<close>; whenever \<open>err\<close> is not \<open>nil\<close> the source returns \<open>shares = nil\<close>
  (the named result is assigned only after the first loop), so the result is a sum.
  The two \<open>make\<close> calls are assumed to find the memory they ask for.
\<close>

definition Split ::
  "int \<Rightarrow> int \<Rightarrow> goint \<Rightarrow> goint \<Rightarrow> 'e reader \<Rightarrow> (('e error + int list) \<times> 'e reader) option" where
  "Split secret modulus k n rd =
     (if sint k < 1 \<or> sint n < sint k then Some (Inl InvalidParameters, rd)
      else if secret \<ge> modulus then Some (Inl SecretTooLarge, rd)
      else (case coefficients (modulus - 1) (nat (sint k - 1)) rd of
              None \<Rightarrow> None
            | Some (Inl e, rd') \<Rightarrow> Some (Inl e, rd')
            | Some (Inr as, rd') \<Rightarrow> Some (shareLoop (secret # as) modulus [1..sint n], rd')))"

section \<open>\<open>Join\<close>\<close>

text \<open>\<open>int64(shareNumbers[j] + 1)\<close>: the addition is on Go \<open>int\<close> and wraps.\<close>

definition xcoord :: "goint \<Rightarrow> int" where
  "xcoord w = sint (w + 1)"

text \<open>\<open>bigJ.Sub(bigJ, x_i)\<close>, then \<open>bigJ.Add(bigJ, modulus)\<close> if the difference is negative.\<close>

definition diffNorm :: "int \<Rightarrow> int \<Rightarrow> int \<Rightarrow> int" where
  "diffNorm m xi xj = (let d = xj - xi in if d < 0 then d + m else d)"

text \<open>
  \<open>d.GCD(x, y, bigJ, modulus)\<close>, then \<open>x.Add(x, modulus)\<close> if \<open>x.Cmp(zero) < 0\<close>, that is
  if the sign flag of \<open>x\<close> is set. \<open>Add\<close> is the addition of the numbers, so a zero with
  the flag set becomes the modulus.
\<close>

definition invNorm :: "int \<Rightarrow> int \<Rightarrow> int" where
  "invNorm m d = (let x = GCD_x d m in if GCD_x_neg d m then x + m else x)"

text \<open>
  The inner loop of \<open>Join\<close> for the share at position \<open>i\<close>, over the positions \<open>js\<close>
  still to visit, with the accumulator \<open>c\<close>.
\<close>

fun joinInner :: "goint list \<Rightarrow> int \<Rightarrow> nat \<Rightarrow> nat list \<Rightarrow> int \<Rightarrow> 'e error + int" where
  "joinInner nums m i [] c = Inr c"
| "joinInner nums m i (j # js) c =
     (if i = j then joinInner nums m i js c
      else (let bigJ = xcoord (nums ! j);
                c1 = c * bigJ;
                d = diffNorm m (xcoord (nums ! i)) bigJ;
                x = invNorm m d;
                c2 = c1 * x
            in if m = 0 then Inl PanicDivisionByZero
               else joinInner nums m i js (bigMod c2 m)))"

text \<open>
  The outer loop over the positions \<open>is\<close> still to visit, with the accumulator
  \<open>secret\<close>, and the final \<open>secret.Mod(secret, modulus)\<close>.
\<close>

fun joinOuter :: "int list \<Rightarrow> goint list \<Rightarrow> int \<Rightarrow> nat list \<Rightarrow> int \<Rightarrow> 'e error + int" where
  "joinOuter shares nums m [] secret =
     (if m = 0 then Inl PanicDivisionByZero else Inr (bigMod secret m))"
| "joinOuter shares nums m (i # is) secret =
     (if sint (nums ! i) < 0 then Inl NegativeShareNumber
      else (case joinInner nums m i [0..<length shares] 1 of
              Inl e \<Rightarrow> Inl e
            | Inr c \<Rightarrow> joinOuter shares nums m is (secret + c * shares ! i)))"

definition Join :: "int list \<Rightarrow> goint list \<Rightarrow> int \<Rightarrow> 'e error + int" where
  "Join shares shareNumbers modulus =
     (if length shares \<noteq> length shareNumbers then Inl LengthMismatch
      else joinOuter shares shareNumbers modulus [0..<length shares] 0)"

section \<open>Predicates of the properties\<close>

text \<open>Primality of the modulus, by trial division.\<close>

definition is_prime :: "int \<Rightarrow> bool" where
  "is_prime p \<longleftrightarrow> 1 < p \<and> (\<forall>d \<in> {2..<p}. \<not> d dvd p)"

text \<open>
  The sums of Lagrange interpolation, over the positions \<open>I\<close> of the shares given to
  \<open>Join\<close>: \<open>X i\<close> is the evaluation point of the share at position \<open>i\<close> and \<open>W i j\<close>
  the number \<open>Join\<close> uses as the inverse of \<open>X j - X i\<close>. \<open>lagrange0\<close> is the sum
  \<open>Join\<close> computes, for the share values \<open>g (X i)\<close>; \<open>divDiff\<close> is the same sum without
  the factors \<open>X j\<close>; \<open>invOn\<close> says that every \<open>W i j\<close> is an inverse modulo \<open>p\<close>.
\<close>

definition divDiff :: "(nat \<Rightarrow> int) \<Rightarrow> (nat \<Rightarrow> nat \<Rightarrow> int) \<Rightarrow> nat set \<Rightarrow> (int \<Rightarrow> int) \<Rightarrow> int" where
  "divDiff X W I g = (\<Sum>i \<in> I. g (X i) * (\<Prod>j \<in> I - {i}. W i j))"

definition lagrange0 :: "(nat \<Rightarrow> int) \<Rightarrow> (nat \<Rightarrow> nat \<Rightarrow> int) \<Rightarrow> nat set \<Rightarrow> (int \<Rightarrow> int) \<Rightarrow> int" where
  "lagrange0 X W I g = (\<Sum>i \<in> I. g (X i) * (\<Prod>j \<in> I - {i}. X j * W i j))"

definition invOn :: "int \<Rightarrow> (nat \<Rightarrow> int) \<Rightarrow> (nat \<Rightarrow> nat \<Rightarrow> int) \<Rightarrow> nat set \<Rightarrow> bool" where
  "invOn p X W I \<longleftrightarrow> (\<forall>i \<in> I. \<forall>j \<in> I. i \<noteq> j \<longrightarrow> ((X j - X i) * W i j) mod p = 1 mod p)"

section \<open>Properties of the sampler\<close>

lemma SetBytes_foldl_nonneg:
  "0 \<le> acc \<Longrightarrow> 0 \<le> foldl (\<lambda>acc b. acc * 256 + uint (b::byte)) acc bs"
  by (induction bs arbitrary: acc) simp_all

lemma SetBytes_nonneg: "0 \<le> SetBytes bs"
  by (simp add: SetBytes_def SetBytes_foldl_nonneg)

lemma readFull_length: "readFull k rd = (Inr bs, rd') \<Longrightarrow> length bs = k"
  by (induction k arbitrary: rd bs rd') (auto split: sum.splits prod.splits)

lemma readFull_error_in_stream: "readFull k rd = (Inl e, rd') \<Longrightarrow> Inl e \<in> sset rd"
proof (induction k arbitrary: rd)
  case 0
  then show ?case by simp
next
  case (Suc k)
  show ?case
  proof (cases "shd rd")
    case (Inl e')
    with Suc.prems have "e' = e" by simp
    with Inl shd_sset [of rd] show ?thesis by simp
  next
    case (Inr b)
    with Suc.prems have "readFull k (stl rd) = (Inl e, rd')"
      by (simp split: prod.splits sum.splits)
    from Suc.IH [OF this] show ?thesis by (rule stl_sset)
  qed
qed

lemma readFull_sset: "readFull k rd = (res, rd') \<Longrightarrow> sset rd' \<subseteq> sset rd"
proof (induction k arbitrary: rd res)
  case 0
  then show ?case by simp
next
  case (Suc k)
  show ?case
  proof (cases "shd rd")
    case (Inl e')
    with Suc.prems have "rd' = stl rd" by simp
    then show ?thesis by (auto intro: stl_sset)
  next
    case (Inr b)
    obtain res1 where r1: "readFull k (stl rd) = (res1, rd')"
      using Suc.prems Inr by (cases "readFull k (stl rd)") (simp split: sum.splits)
    from Suc.IH [OF r1] show ?thesis by (auto intro: stl_sset)
  qed
qed

lemma randomLoop_result:
  assumes "randomLoop k r mx rd = Some y"
  shows "(\<exists>n. fst y = Inr n \<and> 0 \<le> n \<and> n < mx \<and> 0 < k)
       \<or> (fst y = Inl PanicIndexOutOfRange \<and> k = 0 \<and> snd y = rd)
       \<or> (\<exists>e. fst y = Inl (RandomSourceFailure e) \<and> Inl e \<in> sset rd)"
    (is "?ok k mx rd y")
proof (rule randomLoop.raw_induct [where P = "\<lambda>k r mx rd y. ?ok k mx rd y", OF _ assms], goal_cases)
  case (1 loop k r mx rd y)
  obtain a rd1 where rf: "readFull k rd = (a, rd1)" by (cases "readFull k rd")
  show ?case
  proof (cases a)
    case (Inl e)
    with rf 1(2) readFull_error_in_stream [of k rd e rd1] show ?thesis
      by auto
  next
    case (Inr bytes)
    have len: "length bytes = k" using rf Inr by (auto dest: readFull_length)
    have sub: "sset rd1 \<subseteq> sset rd" using rf by (rule readFull_sset)
    show ?thesis
    proof (cases bytes)
      case Nil
      with rf Inr 1(2) len show ?thesis by auto
    next
      case (Cons b bs)
      let ?n = "SetBytes ((b AND word_of_int (2 ^ r - 1)) # bs)"
      show ?thesis
      proof (cases "?n < mx")
        case True
        with rf Inr Cons 1(2) len SetBytes_nonneg [of "(b AND word_of_int (2 ^ r - 1)) # bs"]
        show ?thesis by (auto simp: Let_def)
      next
        case False
        with rf Inr Cons 1(2) have "loop k r mx rd1 = Some y"
          by (simp add: Let_def)
        from 1(1) [OF this] have "?ok k mx rd1 y" .
        with sub len Cons show ?thesis
          by blast
      qed
    qed
  qed
qed


lemma BitLen_zero_iff: "BitLen mx = 0 \<longleftrightarrow> mx = 0"
  unfolding BitLen_def by (subst bitLenNat.simps) auto

lemma randomNumber_result:
  assumes "randomNumber rd mx = Some y"
  shows "(\<exists>n. fst y = Inr n \<and> 0 \<le> n \<and> n < mx)
       \<or> (fst y = Inl PanicIndexOutOfRange \<and> mx = 0 \<and> snd y = rd)
       \<or> (\<exists>e. fst y = Inl (RandomSourceFailure e) \<and> Inl e \<in> sset rd)"
proof -
  define k where "k = (BitLen mx + 7) div 8"
  define r where "r = (if BitLen mx mod 8 = 0 then 8 else BitLen mx mod 8)"
  have rl: "randomLoop k r mx rd = Some y"
    using assms by (simp add: randomNumber_def Let_def k_def r_def)
  have k0: "mx = 0" if "k = 0"
  proof -
    from that have "BitLen mx = 0" unfolding k_def by arith
    then show ?thesis by (simp add: BitLen_zero_iff)
  qed
  from randomLoop_result [OF rl] k0 show ?thesis by auto
qed

lemma randomLoop_empty_buffer:
  "randomLoop 0 r mx rd = Some (Inl PanicIndexOutOfRange, rd)"
  by (subst randomLoop.simps) simp

lemma randomNumber_zero: "randomNumber rd 0 = Some (Inl PanicIndexOutOfRange, rd)"
  by (simp add: randomNumber_def BitLen_zero_iff randomLoop_empty_buffer)

lemma randomLoop_read_fails:
  "readFull k rd = (Inl e, rd') \<Longrightarrow>
   randomLoop k r mx rd = Some (Inl (RandomSourceFailure e), rd')"
  by (subst randomLoop.simps) simp


text \<open>
  Claim C6. Whenever \<open>randomNumber\<close> returns a number \<open>n\<close> for the bound \<open>mx\<close>, then
  \<open>0 \<le> n < mx\<close>, for every bound and every reader. An error of the reader that
  \<open>randomNumber\<close> returns is an error the reader delivers; a read that fails is
  returned as that error; and after a candidate that is not below the bound
  \<open>randomNumber\<close> goes on as a new call on the rest of the reader does, so that a later
  read that fails is returned in the same way.
\<close>

theorem randomNumber_in_range:
  "(randomNumber rd mx = Some (Inr n, rd') \<longrightarrow> 0 \<le> n \<and> n < mx)
   \<and> (randomNumber rd mx = Some (Inl (RandomSourceFailure e), rd') \<longrightarrow> Inl e \<in> sset rd)
   \<and> (readFull ((BitLen mx + 7) div 8) rd = (Inl e, rd')
        \<longrightarrow> randomNumber rd mx = Some (Inl (RandomSourceFailure e), rd'))
   \<and> (readFull ((BitLen mx + 7) div 8) rd = (Inr (b # bs), rd1)
        \<and> \<not> SetBytes ((b AND word_of_int
                  (2 ^ (if BitLen mx mod 8 = 0 then 8 else BitLen mx mod 8) - 1)) # bs) < mx
        \<longrightarrow> randomNumber rd mx = randomNumber rd1 mx)"
proof (intro conjI impI)
  assume "randomNumber rd mx = Some (Inr n, rd')"
  from randomNumber_result [OF this] show "0 \<le> n" and "n < mx" by simp_all
next
  assume "randomNumber rd mx = Some (Inl (RandomSourceFailure e), rd')"
  from randomNumber_result [OF this] show "Inl e \<in> sset rd" by simp
next
  assume "readFull ((BitLen mx + 7) div 8) rd = (Inl e, rd')"
  then show "randomNumber rd mx = Some (Inl (RandomSourceFailure e), rd')"
    by (simp add: randomNumber_def Let_def randomLoop_read_fails)
next
  assume "readFull ((BitLen mx + 7) div 8) rd = (Inr (b # bs), rd1)
        \<and> \<not> SetBytes ((b AND word_of_int
                  (2 ^ (if BitLen mx mod 8 = 0 then 8 else BitLen mx mod 8) - 1)) # bs) < mx"
  then show "randomNumber rd mx = randomNumber rd1 mx"
    unfolding randomNumber_def Let_def
    by (subst randomLoop.simps) (simp add: Let_def)
qed

lemma BitLen_3: "BitLen 3 = 2"
  by (simp add: BitLen_def bitLenNat.simps)

lemma randomNumber_example:
  "randomNumber (Inr 7 ## Inr 2 ## sconst (Inl ())) 3 = Some (Inr 2, sconst (Inl ()))"
  apply (simp add: randomNumber_def BitLen_3)
  apply (subst randomLoop.simps)
  apply (simp add: SetBytes_def)
  apply (subst randomLoop.simps)
  apply (simp add: SetBytes_def)
  done

theorem randomNumber_in_range_witness:
  "randomNumber (Inr 7 ## Inr 2 ## sconst (Inl ())) 3 = Some (Inr 2, sconst (Inl ()))
   \<and> (0::int) \<le> 2 \<and> (2::int) < 3
   \<and> readFull ((BitLen 3 + 7) div 8) (sconst (Inl ())) = (Inl (), sconst (Inl ()) :: unit reader)
   \<and> randomNumber (sconst (Inl ())) 3 = Some (Inl (RandomSourceFailure ()), sconst (Inl ()))
   \<and> Inl () \<in> sset (sconst (Inl ()) :: unit reader)
   \<and> readFull ((BitLen 3 + 7) div 8) (Inr 7 ## Inr 2 ## sconst (Inl ()))
       = (Inr [7], Inr 2 ## sconst (Inl ()) :: unit reader)
   \<and> \<not> SetBytes [7 AND word_of_int (2 ^ 2 - 1)] < 3
   \<and> randomNumber (Inr 7 ## Inr 2 ## sconst (Inl ())) 3
       = randomNumber (Inr 2 ## sconst (Inl ()) :: unit reader) 3"
proof -
  let ?rd = "sconst (Inl ()) :: unit reader"
  have rf: "readFull ((BitLen 3 + 7) div 8) ?rd = (Inl (), ?rd)"
    by (simp add: BitLen_3)
  have rf2: "readFull ((BitLen 3 + 7) div 8) (Inr 7 ## Inr 2 ## ?rd) = (Inr [7], Inr 2 ## ?rd)"
    by (simp add: BitLen_3)
  have rej: "\<not> SetBytes [(7 :: byte) AND word_of_int (2 ^ 2 - 1)] < 3"
    by (simp add: SetBytes_def)
  from randomNumber_in_range [of ?rd 3 0 ?rd "()"] rf
  have fails: "randomNumber ?rd 3 = Some (Inl (RandomSourceFailure ()), ?rd)" by blast
  from randomNumber_in_range [of "Inr 7 ## Inr 2 ## ?rd" 3 2 ?rd "()" 7 "[]" "Inr 2 ## ?rd"] rf2 rej
  have again: "randomNumber (Inr 7 ## Inr 2 ## ?rd) 3 = randomNumber (Inr 2 ## ?rd) 3"
    by (simp add: BitLen_3)
  from fails again randomNumber_example rf rf2 rej show ?thesis by simp
qed

section \<open>The parameter checks of \<open>Split\<close>\<close>

lemma coefficients_error:
  "coefficients mm1 c rd = Some (Inl e, rd') \<Longrightarrow>
   e = PanicIndexOutOfRange \<or> (\<exists>x. e = RandomSourceFailure x)"
proof (induction c arbitrary: rd)
  case 0
  then show ?case by simp
next
  case (Suc c)
  from Suc.prems obtain y where y: "randomNumber rd mm1 = Some y"
    by (cases "randomNumber rd mm1") auto
  show ?case
  proof (cases "fst y")
    case (Inl e1)
    with y Suc.prems have "e1 = e" by (cases y) simp
    with randomNumber_result [OF y] Inl show ?thesis by auto
  next
    case (Inr r)
    with y Suc.prems have "coefficients mm1 c (snd y) = Some (Inl e, rd')"
      by (cases y) (auto split: option.splits sum.splits prod.splits)
    then show ?thesis by (rule Suc.IH)
  qed
qed

lemma shareLoop_error: "shareLoop a m is = Inl e \<Longrightarrow> e = PanicDivisionByZero"
  by (induction "is") (auto split: if_splits sum.splits)

text \<open>
  Claim C4. \<open>Split\<close> fails with \<open>InvalidParameters\<close> exactly when \<open>k < 1\<close> or \<open>n < k\<close>,
  and with \<open>SecretTooLarge\<close> exactly when the first check passes and
  \<open>secret \<ge> modulus\<close>. In both failures the reader is returned as it was given (no
  byte has been consumed), and the result carries no shares: it is the error alone.
\<close>

theorem Split_parameter_checks:
  "(Split secret modulus k n rd = Some (Inl InvalidParameters, rd')
      \<longleftrightarrow> (sint k < 1 \<or> sint n < sint k) \<and> rd' = rd)
   \<and> (Split secret modulus k n rd = Some (Inl SecretTooLarge, rd')
      \<longleftrightarrow> 1 \<le> sint k \<and> sint k \<le> sint n \<and> modulus \<le> secret \<and> rd' = rd)"
proof (cases "sint k < 1 \<or> sint n < sint k")
  case True
  then show ?thesis by (auto simp: Split_def)
next
  case params: False
  show ?thesis
  proof (cases "modulus \<le> secret")
    case True
    with params show ?thesis by (auto simp: Split_def)
  next
    case False
    have "Split secret modulus k n rd \<noteq> Some (Inl e, rd')"
      if "e = InvalidParameters \<or> e = SecretTooLarge" for e
    proof
      assume "Split secret modulus k n rd = Some (Inl e, rd')"
      with params False have
        "(\<exists>rd1. coefficients (modulus - 1) (nat (sint k - 1)) rd = Some (Inl e, rd1))
         \<or> (\<exists>as. shareLoop (secret # as) modulus [1..sint n] = Inl e)"
        by (auto simp: Split_def split: option.splits sum.splits prod.splits)
      with that show False
        by (auto dest: coefficients_error dest!: shareLoop_error)
    qed
    from this [of InvalidParameters] this [of SecretTooLarge] params False
    show ?thesis by simp
  qed
qed


section \<open>The sampler with the bound zero\<close>

lemma coefficients_bound_zero:
  "coefficients 0 (Suc c) rd = Some (Inl PanicIndexOutOfRange, rd)"
  by (simp add: randomNumber_zero)

text \<open>
  Claim C10, as amended. \<open>randomNumber\<close> returns a number only for a bound of at least 1.
  With the bound 0 the buffer is empty, no byte is read, and the first iteration stops
  in the index-out-of-range panic of \<open>bytes[0]\<close>: the loop does not run forever. \<open>Split\<close>
  reaches this with \<open>modulus = 1\<close> and \<open>k \<ge> 2\<close> and stops in the same panic.
\<close>

theorem sampler_bound_zero_panics:
  "(randomNumber rd mx = Some (Inr v, rd') \<longrightarrow> 1 \<le> mx)
   \<and> randomNumber rd 0 = Some (Inl PanicIndexOutOfRange, rd)
   \<and> (2 \<le> sint k \<and> sint k \<le> sint n \<and> secret < 1
        \<longrightarrow> Split secret 1 k n rd = Some (Inl PanicIndexOutOfRange, rd))"
proof (intro conjI impI)
  assume "randomNumber rd mx = Some (Inr v, rd')"
  from randomNumber_result [OF this] show "1 \<le> mx" by simp
next
  show "randomNumber rd 0 = Some (Inl PanicIndexOutOfRange, rd)"
    by (rule randomNumber_zero)
next
  assume a: "2 \<le> sint k \<and> sint k \<le> sint n \<and> secret < 1"
  then obtain c where c: "nat (sint k - 1) = Suc c"
    by (cases "nat (sint k - 1)") auto
  from a show "Split secret 1 k n rd = Some (Inl PanicIndexOutOfRange, rd)"
    by (simp add: Split_def c coefficients_bound_zero del: coefficients.simps)
qed

theorem sampler_bound_zero_panics_witness:
  "randomNumber (sconst (Inr 0)) 1 = Some (Inr 0, sconst (Inr 0 :: unit + byte))
   \<and> (1::int) \<le> 1
   \<and> (2::int) \<le> sint (2::goint) \<and> sint (2::goint) \<le> sint (3::goint) \<and> (0::int) < 1
   \<and> Split 0 1 2 3 (sconst (Inr 0)) = Some (Inl PanicIndexOutOfRange, sconst (Inr 0 :: unit + byte))"
proof -
  let ?rd = "sconst (Inr 0) :: unit reader"
  have ex: "randomNumber ?rd 1 = Some (Inr 0, ?rd)"
    apply (simp add: randomNumber_def BitLen_def bitLenNat.simps)
    apply (subst randomLoop.simps)
    apply (simp add: SetBytes_def)
    done
  have h: "(2::int) \<le> sint (2::goint) \<and> sint (2::goint) \<le> sint (3::goint) \<and> (0::int) < 1"
    by simp
  from sampler_bound_zero_panics [of ?rd 1 0 ?rd 2 3 0] ex h show ?thesis by simp
qed

text \<open>
  Claim C10 as stated says that these two runs never end, which is \<open>None\<close> in the model.
\<close>

theorem sampler_bound_zero_returns_counterexample:
  "randomNumber (sconst (Inr 0)) 0 \<noteq> (None :: ((unit error + int) \<times> unit reader) option)
   \<and> Split 0 1 2 2 (sconst (Inr 0)) \<noteq> (None :: ((unit error + int list) \<times> unit reader) option)"
proof -
  have "nat (sint (2::goint) - 1) = Suc 0" by simp
  then show ?thesis
    by (simp add: randomNumber_zero Split_def coefficients_bound_zero del: coefficients.simps)
qed

section \<open>The shares \<open>Split\<close> returns\<close>

lemma evalAt_sum: "evalAt a i = (\<Sum>j<length a. a ! j * i ^ j)"
  by (simp add: evalAt_def interv_sum_list_conv_sum_set_nat atLeast0LessThan mult.commute)

lemma shareLoop_shares:
  "shareLoop a m is = Inr ss \<Longrightarrow>
   ss = map (\<lambda>i. bigMod (evalAt a i) m) is \<and> (is \<noteq> [] \<longrightarrow> m \<noteq> 0)"
  by (induction "is" arbitrary: ss) (auto split: if_splits sum.splits)

lemma bigMod_range: "m \<noteq> 0 \<Longrightarrow> 0 \<le> bigMod x m \<and> bigMod x m < \<bar>m\<bar>"
  by (simp add: bigMod_def)

lemma coefficients_run:
  "coefficients mm1 c rd = Some (Inr as, rd') \<Longrightarrow>
   \<exists>rds. length as = c \<and> length rds = Suc c \<and> rds ! 0 = rd \<and> last rds = rd'
     \<and> (\<forall>j<c. randomNumber (rds ! j) mm1 = Some (Inr (as ! j - 1), rds ! Suc j)
              \<and> 1 \<le> as ! j \<and> as ! j \<le> mm1)"
proof (induction c arbitrary: rd as)
  case 0
  then show ?case by (auto intro: exI [of _ "[rd]"])
next
  case (Suc c)
  from Suc.prems obtain r rd1 where r: "randomNumber rd mm1 = Some (Inr r, rd1)"
    by (auto split: option.splits sum.splits prod.splits)
  with Suc.prems obtain rs where rs: "coefficients mm1 c rd1 = Some (Inr rs, rd')"
    and as: "as = (r + 1) # rs"
    by (auto split: option.splits sum.splits prod.splits)
  from randomNumber_result [OF r] have rng: "0 \<le> r" "r < mm1" by simp_all
  from Suc.IH [OF rs] obtain rds where rds: "length rs = c" "length rds = Suc c"
    "rds ! 0 = rd1" "last rds = rd'"
    "\<forall>j<c. randomNumber (rds ! j) mm1 = Some (Inr (rs ! j - 1), rds ! Suc j)
              \<and> 1 \<le> rs ! j \<and> rs ! j \<le> mm1"
    by blast
  have "\<forall>j<Suc c. randomNumber ((rd # rds) ! j) mm1 = Some (Inr (as ! j - 1), (rd # rds) ! Suc j)
              \<and> 1 \<le> as ! j \<and> as ! j \<le> mm1"
  proof (intro allI impI)
    fix j assume "j < Suc c"
    show "randomNumber ((rd # rds) ! j) mm1 = Some (Inr (as ! j - 1), (rd # rds) ! Suc j)
              \<and> 1 \<le> as ! j \<and> as ! j \<le> mm1"
    proof (cases j)
      case 0
      with r rng as rds(3) show ?thesis by simp
    next
      case (Suc j')
      with \<open>j < Suc c\<close> rds(5) as show ?thesis by simp
    qed
  qed
  moreover have "last (rd # rds) = rd'" using rds(2,4) by (cases rds) auto
  ultimately show ?case using rds(1,2) as
    by (intro exI [of _ "rd # rds"]) simp
qed

lemma Split_success:
  assumes "Split secret modulus k n (rd :: 'e reader) = Some (Inr shares, rd')"
  shows "1 \<le> sint k \<and> sint k \<le> sint n \<and> secret < modulus
    \<and> (\<exists>as. coefficients (modulus - 1) (nat (sint k - 1)) rd = Some (Inr as, rd')
           \<and> shareLoop (secret # as) modulus [1..sint n] = (Inr shares :: 'e error + int list))"
  using assms
  by (auto simp: Split_def split: if_splits option.splits sum.splits prod.splits)


text \<open>
  Claim C7, as amended. On success \<open>Split\<close> returns exactly \<open>n\<close> values. The value at
  position \<open>i - 1\<close>, for \<open>i = 1, ..., n\<close>, is the Euclidean residue modulo \<open>|modulus|\<close> of
  the sum of \<open>a[j] * i^j\<close> over \<open>j < k\<close> and lies in \<open>[0, |modulus|)\<close>, where
  \<open>a[0] = secret\<close> and \<open>a[j]\<close>, for \<open>j = 1, ..., k - 1\<close>, is one plus the result of the
  \<open>j\<close>-th call of \<open>randomNumber\<close> with the bound \<open>modulus - 1\<close>, hence in
  \<open>[1, modulus - 1]\<close>. Exactly \<open>k - 1\<close> calls are made, in this order, each on the
  reader the call before has left (\<open>rds\<close> is the sequence of these readers). With
  \<open>k \<ge> 2\<close> success needs \<open>modulus \<ge> 2\<close>, so the range is \<open>[0, modulus)\<close>; with \<open>k = 1\<close>
  a negative modulus is accepted too.
\<close>

theorem Split_shares:
  assumes "Split secret modulus k n rd = Some (Inr shares, rd')"
  shows "\<exists>as rds. length shares = nat (sint n)
    \<and> length as = nat (sint k) - 1 \<and> length rds = nat (sint k)
    \<and> rds ! 0 = rd \<and> last rds = rd'
    \<and> (\<forall>j < nat (sint k) - 1.
          randomNumber (rds ! j) (modulus - 1) = Some (Inr (as ! j - 1), rds ! Suc j)
          \<and> 1 \<le> as ! j \<and> as ! j \<le> modulus - 1)
    \<and> (\<forall>i \<in> {1..sint n}.
          shares ! nat (i - 1) = bigMod (\<Sum>j < nat (sint k). (secret # as) ! j * i ^ j) modulus
          \<and> 0 \<le> shares ! nat (i - 1) \<and> shares ! nat (i - 1) < \<bar>modulus\<bar>)
    \<and> (2 \<le> sint k \<longrightarrow> 2 \<le> modulus)"
proof -
  from Split_success [OF assms] obtain as where
    kn: "1 \<le> sint k" "sint k \<le> sint n" and
    co: "coefficients (modulus - 1) (nat (sint k - 1)) rd = Some (Inr as, rd')" and
    sl: "shareLoop (secret # as) modulus [1..sint n] = (Inr shares :: 'a error + int list)"
    by blast
  have c: "nat (sint k - 1) = nat (sint k) - 1" by simp
  from coefficients_run [OF co] obtain rds where
    rds: "length as = nat (sint k) - 1" "length rds = Suc (nat (sint k) - 1)"
      "rds ! 0 = rd" "last rds = rd'"
      "\<forall>j < nat (sint k) - 1.
          randomNumber (rds ! j) (modulus - 1) = Some (Inr (as ! j - 1), rds ! Suc j)
          \<and> 1 \<le> as ! j \<and> as ! j \<le> modulus - 1"
    unfolding c by blast
  from kn have lr: "length rds = nat (sint k)" and la: "length (secret # as) = nat (sint k)"
    using rds(1,2) by auto
  from shareLoop_shares [OF sl] kn have
    sh: "shares = map (\<lambda>i. bigMod (evalAt (secret # as) i) modulus) [1..sint n]"
    and m0: "modulus \<noteq> 0" by auto
  have len: "length shares = nat (sint n)" by (simp add: sh)
  have each: "shares ! nat (i - 1) = bigMod (\<Sum>j < nat (sint k). (secret # as) ! j * i ^ j) modulus
          \<and> 0 \<le> shares ! nat (i - 1) \<and> shares ! nat (i - 1) < \<bar>modulus\<bar>"
    if "i \<in> {1..sint n}" for i
  proof -
    from that have "[1..sint n] ! nat (i - 1) = i" by simp
    with that have "shares ! nat (i - 1) = bigMod (evalAt (secret # as) i) modulus"
      by (simp add: sh)
    also have "evalAt (secret # as) i = (\<Sum>j < nat (sint k). (secret # as) ! j * i ^ j)"
      unfolding evalAt_sum la ..
    finally show ?thesis using bigMod_range [OF m0] by simp
  qed
  have big: "2 \<le> modulus" if "2 \<le> sint k"
  proof -
    from that have "0 < nat (sint k) - 1" by simp
    with rds(5) have "1 \<le> as ! 0 \<and> as ! 0 \<le> modulus - 1" by blast
    then show ?thesis by simp
  qed
  from len rds(1) lr rds(3,4,5) each big show ?thesis by blast
qed


lemma BitLen_4: "BitLen 4 = 3"
  by (simp add: BitLen_def bitLenNat.simps)

lemma Split_example:
  "Split 1 5 2 3 (Inr 2 ## sconst (Inl ())) = Some (Inr [4, 2, 0], sconst (Inl ()))"
proof -
  have c: "nat (sint (2::goint) - 1) = Suc 0" by simp
  have r: "randomNumber (Inr 2 ## sconst (Inl ())) 4 = Some (Inr 2, sconst (Inl ()))"
    apply (simp add: randomNumber_def BitLen_4)
    apply (subst randomLoop.simps)
    apply (simp add: SetBytes_def)
    done
  have e: "[0..<2] = [0, Suc 0]" by (simp add: upt_rec)
  have u: "[1..3::int] = [1, 2, 3]" by (simp add: upto_rec1)
  show ?thesis
    by (simp add: Split_def c r u evalAt_def e bigMod_def)
qed

theorem Split_shares_witness:
  "Split 1 5 2 3 (Inr 2 ## sconst (Inl ())) = Some (Inr [4, 2, 0], sconst (Inl ()))
   \<and> (\<exists>as rds. length [4, 2, 0 :: int] = nat (sint (3 :: goint))
    \<and> length as = nat (sint (2 :: goint)) - 1 \<and> length rds = nat (sint (2 :: goint))
    \<and> rds ! 0 = (Inr 2 ## sconst (Inl ())) \<and> last rds = sconst (Inl ())
    \<and> (\<forall>j < nat (sint (2 :: goint)) - 1.
          randomNumber (rds ! j) (5 - 1) = Some (Inr (as ! j - 1), rds ! Suc j)
          \<and> 1 \<le> as ! j \<and> as ! j \<le> 5 - 1)
    \<and> (\<forall>i \<in> {1..sint (3 :: goint)}.
          [4, 2, 0 :: int] ! nat (i - 1) = bigMod (\<Sum>j < nat (sint (2 :: goint)). (1 # as) ! j * i ^ j) 5
          \<and> 0 \<le> [4, 2, 0 :: int] ! nat (i - 1) \<and> [4, 2, 0 :: int] ! nat (i - 1) < \<bar>5\<bar>)
    \<and> (2 \<le> sint (2 :: goint) \<longrightarrow> (2 :: int) \<le> 5))"
  by (rule conjI [OF Split_example Split_shares [OF Split_example]])

text \<open>
  Claim C7 as stated puts every share in \<open>[0, modulus)\<close>. With \<open>k = 1\<close> no sample is
  drawn and a negative modulus passes the checks: the share is in \<open>[0, |modulus|)\<close>.
\<close>

theorem Split_shares_negative_modulus_counterexample:
  "Split (- 7) (- 5) 1 1 (sconst (Inr 0) :: unit reader) = Some (Inr [3], sconst (Inr 0))
   \<and> \<not> ((3 :: int) < - 5)"
proof -
  have u: "[1..1::int] = [1]" by (simp add: upto_rec1)
  show ?thesis
    by (simp add: Split_def u evalAt_def bigMod_def)
qed

section \<open>The extended Euclidean algorithm and the two normalisations\<close>

lemma egcd_bezout: "egcd a b = (x, y) \<Longrightarrow> int a * x + int b * y = int (gcd a b)"
proof (induction a b arbitrary: x y rule: egcd.induct)
  case (1 a b)
  show ?case
  proof (cases "b = 0")
    case True
    with "1.prems" show ?thesis by (simp add: egcd.simps)
  next
    case False
    obtain x' y' where rec: "egcd b (a mod b) = (x', y')" by (cases "egcd b (a mod b)")
    with False "1.prems" have xy: "x = y'" "y = x' - int (a div b) * y'"
      by (auto simp: egcd.simps [of a b])
    from "1.IH" [OF False rec] have "int b * x' + int (a mod b) * y' = int (gcd b (a mod b))" .
    moreover have "int a = int (a div b) * int b + int (a mod b)"
      by (metis div_mult_mod_eq of_nat_add of_nat_mult)
    moreover have "gcd b (a mod b) = gcd a b"
      by (metis gcd.commute gcd_red_nat)
    ultimately show ?thesis unfolding xy by (simp add: algebra_simps)
  qed
qed

lemma egcd_bound_gt:
  "b < a \<Longrightarrow> 0 < b \<Longrightarrow> egcd a b = (x, y) \<Longrightarrow>
   2 * int (gcd a b) * \<bar>x\<bar> \<le> int b \<and> 2 * int (gcd a b) * \<bar>y\<bar> \<le> int a"
proof (induction a b arbitrary: x y rule: egcd.induct)
  case (1 a b)
  from "1.prems" have b0: "b \<noteq> 0" by simp
  obtain x' y' where rec: "egcd b (a mod b) = (x', y')" by (cases "egcd b (a mod b)")
  with b0 "1.prems" have xy: "x = y'" "y = x' - int (a div b) * y'"
    by (auto simp: egcd.simps [of a b])
  have g: "gcd b (a mod b) = gcd a b" by (metis gcd.commute gcd_red_nat)
  have a: "int a = int (a div b) * int b + int (a mod b)"
    by (metis div_mult_mod_eq of_nat_add of_nat_mult)
  show ?case
  proof (cases "a mod b = 0")
    case True
    with rec have "x' = 1" "y' = 0" by (simp_all add: egcd.simps [of b])
    with xy have x: "x = 0" and y: "y = 1" by simp_all
    from True have "b dvd a" by (simp add: dvd_eq_mod_eq_0)
    then have gb: "gcd a b = b" by (simp add: gcd_nat.absorb2)
    from \<open>b dvd a\<close> obtain q where q: "a = b * q" ..
    with "1.prems" have "2 \<le> q" by (cases q) (auto simp: Suc_le_eq)
    then have "2 * b \<le> a" unfolding q by simp
    then show ?thesis by (simp add: x y gb)
  next
    case False
    then have "a mod b < b" "0 < a mod b" using b0 by simp_all
    from "1.IH" [OF b0 this rec] have
      ih: "2 * int (gcd a b) * \<bar>x'\<bar> \<le> int (a mod b)" "2 * int (gcd a b) * \<bar>y'\<bar> \<le> int b"
      unfolding g by simp_all
    have "\<bar>y\<bar> \<le> \<bar>x'\<bar> + int (a div b) * \<bar>y'\<bar>"
      unfolding xy by (metis abs_mult abs_of_nat abs_triangle_ineq4)
    then have "2 * int (gcd a b) * \<bar>y\<bar> \<le> 2 * int (gcd a b) * \<bar>x'\<bar> + int (a div b) * (2 * int (gcd a b) * \<bar>y'\<bar>)"
      by (metis (no_types, opaque_lifting) distrib_left mult.assoc mult.left_commute
          mult_left_mono of_nat_0_le_iff zero_le_mult_iff zero_le_numeral)
    also have "\<dots> \<le> int (a mod b) + int (a div b) * int b"
      using ih by (intro add_mono mult_left_mono) simp_all
    also have "\<dots> = int a" using a by simp
    finally show ?thesis using ih(2) by (simp add: xy)
  qed
qed


lemma egcd_fst_bound:
  assumes "0 < b"
  shows "\<bar>fst (egcd a b)\<bar> < int b"
proof -
  obtain x' y' where rec: "egcd b (a mod b) = (x', y')" by (cases "egcd b (a mod b)")
  with assms have x: "fst (egcd a b) = y'" by (simp add: egcd.simps [of a b])
  consider "b < a" | "a = b" | "a = 0" | "0 < a" "a < b" by linarith
  then show ?thesis
  proof cases
    case 1
    obtain x y where xy: "egcd a b = (x, y)" by (cases "egcd a b")
    from egcd_bound_gt [OF 1 assms xy] have "2 * int (gcd a b) * \<bar>x\<bar> \<le> int b" ..
    moreover have "1 \<le> int (gcd a b)" using assms by (simp add: Suc_le_eq)
    then have "\<bar>x\<bar> \<le> int (gcd a b) * \<bar>x\<bar>"
      using mult_right_mono [of 1 "int (gcd a b)" "\<bar>x\<bar>"] by simp
    ultimately show ?thesis using assms xy by simp
  next
    case 2
    with rec assms have "y' = 0" by (simp add: egcd.simps [of b 0])
    with x assms show ?thesis by simp
  next
    case 3
    with rec assms have "y' = 0" by (simp add: egcd.simps [of b 0])
    with x assms show ?thesis by simp
  next
    case 4
    then have "a mod b = a" by simp
    with rec have ba: "egcd b a = (x', y')" by simp
    from egcd_bound_gt [OF 4(2,1) ba] have "2 * int (gcd b a) * \<bar>y'\<bar> \<le> int b" ..
    moreover have "1 \<le> int (gcd b a)" using assms by (simp add: Suc_le_eq)
    then have "\<bar>y'\<bar> \<le> int (gcd b a) * \<bar>y'\<bar>"
      using mult_right_mono [of 1 "int (gcd b a)" "\<bar>y'\<bar>"] by simp
    ultimately show ?thesis using assms x by simp
  qed
qed

lemma GCD_x_bound: "0 < m \<Longrightarrow> \<bar>GCD_x d m\<bar> < m"
  using egcd_fst_bound [of "nat \<bar>m\<bar>" "nat \<bar>d\<bar>"]
  by (auto simp: GCD_x_def abs_mult abs_sgn_eq)

lemma GCD_x_bezout:
  assumes "m \<noteq> 0"
  shows "\<exists>y. d * GCD_x d m + m * y = gcd d m"
proof (cases "d = 0")
  case True
  have "m * sgn m = \<bar>m\<bar>" by (rule abs_sgn [symmetric])
  with True have "d * GCD_x d m + m * sgn m = gcd d m" by (simp add: GCD_x_def)
  then show ?thesis ..
next
  case False
  obtain x y where xy: "egcd (nat \<bar>d\<bar>) (nat \<bar>m\<bar>) = (x, y)"
    by (cases "egcd (nat \<bar>d\<bar>) (nat \<bar>m\<bar>)")
  have "int (nat \<bar>d\<bar>) * x + int (nat \<bar>m\<bar>) * y = int (gcd (nat \<bar>d\<bar>) (nat \<bar>m\<bar>))"
    by (rule egcd_bezout [OF xy])
  also have "\<dots> = gcd d m" by (rule gcd_int_def [symmetric])
  finally have bz: "\<bar>d\<bar> * x + \<bar>m\<bar> * y = gcd d m" by simp
  have gx: "GCD_x d m = sgn d * x"
    using False assms xy by (simp add: GCD_x_def)
  have "d * GCD_x d m + m * (sgn m * y) = (d * sgn d) * x + (m * sgn m) * y"
    unfolding gx by (simp only: mult.assoc)
  also have "\<dots> = \<bar>d\<bar> * x + \<bar>m\<bar> * y"
    by (simp only: abs_sgn [symmetric])
  also note bz
  finally have "d * GCD_x d m + m * (sgn m * y) = gcd d m" .
  then show ?thesis ..
qed



lemma invNorm_mod: "invNorm m d mod m = GCD_x d m mod m"
  by (simp add: invNorm_def Let_def)

lemma invNorm_bezout:
  assumes "m \<noteq> 0"
  shows "(d * invNorm m d) mod m = gcd d m mod m"
proof -
  from GCD_x_bezout [OF assms, of d] obtain y where "d * GCD_x d m + m * y = gcd d m" ..
  then have "gcd d m mod m = (d * GCD_x d m + m * y) mod m" by simp
  also have "\<dots> = (d * GCD_x d m) mod m" by simp
  also have "\<dots> = (d * (GCD_x d m mod m)) mod m" by (simp add: mod_mult_right_eq)
  also have "\<dots> = (d * (invNorm m d mod m)) mod m" by (simp only: invNorm_mod)
  also have "\<dots> = (d * invNorm m d) mod m" by (simp add: mod_mult_right_eq)
  finally show ?thesis ..
qed


lemma diffNorm_mod: "diffNorm m xi xj mod m = (xj - xi) mod m"
  by (simp add: diffNorm_def Let_def)


section \<open>The results of \<open>Join\<close>\<close>

lemma joinInner_nonzero: "m \<noteq> 0 \<Longrightarrow> \<exists>c'. joinInner nums m i js c = Inr c'"
  by (induction js arbitrary: c) (auto simp: Let_def)

lemma joinInner_error: "joinInner nums m i js c = Inl e \<Longrightarrow> e = PanicDivisionByZero \<and> m = 0"
  by (induction js arbitrary: c) (auto simp: Let_def split: if_splits)

lemma joinOuter_error:
  "joinOuter shares nums m is acc = Inl e \<Longrightarrow> e = NegativeShareNumber \<or> e = PanicDivisionByZero"
  by (induction "is" arbitrary: acc)
     (auto split: if_splits sum.splits dest: joinInner_error)

lemma joinOuter_negative:
  "m \<noteq> 0 \<Longrightarrow>
   joinOuter shares nums m is acc = Inl NegativeShareNumber \<longleftrightarrow> (\<exists>i \<in> set is. sint (nums ! i) < 0)"
proof (induction "is" arbitrary: acc)
  case Nil
  then show ?case by simp
next
  case (Cons i "is")
  from joinInner_nonzero [OF Cons.prems] obtain c
    where "joinInner nums m i [0..<length shares] 1 = (Inr c :: 'a error + int)" by blast
  with Cons show ?case by auto
qed

lemma joinOuter_value:
  "m \<noteq> 0 \<Longrightarrow> \<forall>i \<in> set is. 0 \<le> sint (nums ! i) \<Longrightarrow>
   \<exists>v. joinOuter shares nums m is acc = Inr v \<and> 0 \<le> v \<and> v < \<bar>m\<bar>"
proof (induction "is" arbitrary: acc)
  case Nil
  then show ?case by (simp add: bigMod_def)
next
  case (Cons i "is")
  from joinInner_nonzero [OF Cons.prems(1)] obtain c
    where "joinInner nums m i [0..<length shares] 1 = (Inr c :: 'a error + int)" by blast
  with Cons show ?case by (simp add: not_less [symmetric])
qed

lemma negative_entry_position:
  "(\<exists>i \<in> set [0..<length nums]. sint (nums ! i) < 0) \<longleftrightarrow> (\<exists>w \<in> set nums. sint w < 0)"
proof
  assume "\<exists>i \<in> set [0..<length nums]. sint (nums ! i) < 0"
  then obtain i where "i < length nums" "sint (nums ! i) < 0" by auto
  then show "\<exists>w \<in> set nums. sint w < 0" using nth_mem by blast
next
  assume "\<exists>w \<in> set nums. sint w < 0"
  then obtain w where "w \<in> set nums" "sint w < 0" by blast
  then obtain i where "i < length nums" "nums ! i = w" by (auto simp: in_set_conv_nth)
  with \<open>sint w < 0\<close> show "\<exists>i \<in> set [0..<length nums]. sint (nums ! i) < 0" by auto
qed

text \<open>
  Claim C5, as amended. \<open>Join\<close> fails with \<open>LengthMismatch\<close> exactly when the two
  sequences differ in length. Given equal lengths and a modulus other than zero, it fails
  with \<open>NegativeShareNumber\<close> exactly when some entry of \<open>shareNumbers\<close> is negative.
  Either result is the error alone, without a secret.
\<close>

theorem Join_validation:
  "(Join shares nums m = (Inl LengthMismatch :: 'e error + int)
      \<longleftrightarrow> length shares \<noteq> length nums)
   \<and> (length shares = length nums \<and> m \<noteq> 0 \<longrightarrow>
        (Join shares nums m = (Inl NegativeShareNumber :: 'e error + int)
           \<longleftrightarrow> (\<exists>w \<in> set nums. sint w < 0)))"
proof (intro conjI impI)
  show "Join shares nums m = Inl LengthMismatch \<longleftrightarrow> length shares \<noteq> length nums"
    by (auto simp: Join_def dest: joinOuter_error)
next
  assume a: "length shares = length nums \<and> m \<noteq> 0"
  then have "Join shares nums m = Inl NegativeShareNumber
      \<longleftrightarrow> (\<exists>i \<in> set [0..<length nums]. sint (nums ! i) < 0)"
    by (simp add: Join_def joinOuter_negative del: set_upt)
  then show "Join shares nums m = Inl NegativeShareNumber \<longleftrightarrow> (\<exists>w \<in> set nums. sint w < 0)"
    by (simp only: negative_entry_position)
qed

text \<open>
  Claim C2, as amended. \<open>Join\<close> has no failure for a missing modular inverse: for
  sequences of equal length, entries that are not negative and a modulus other than
  zero, whether prime or not and whatever the differences of the evaluation points
  share with it, \<open>Join\<close> returns a number, in \<open>[0, |modulus|)\<close>.
\<close>

theorem Join_returns_number:
  assumes "length shares = length nums" and "\<forall>w \<in> set nums. 0 \<le> sint w" and "m \<noteq> 0"
  shows "\<exists>v. Join shares nums m = (Inr v :: 'e error + int) \<and> 0 \<le> v \<and> v < \<bar>m\<bar>"
proof -
  from assms(2) have "\<forall>i \<in> set [0..<length shares]. 0 \<le> sint (nums ! i)"
    using assms(1) by simp
  from joinOuter_value [OF assms(3) this] show ?thesis
    by (simp add: Join_def assms(1))
qed


theorem Join_validation_witness:
  "length [5, 6 :: int] = length [0, - 1 :: goint] \<and> (7 :: int) \<noteq> 0
   \<and> (\<exists>w \<in> set [0, - 1 :: goint]. sint w < 0)
   \<and> Join [5, 6] [0, - 1] 7 = (Inl NegativeShareNumber :: unit error + int)
   \<and> length [5 :: int] \<noteq> length [0, 1 :: goint]
   \<and> Join [5] [0, 1] 7 = (Inl LengthMismatch :: unit error + int)"
  using Join_validation [of "[5, 6]" "[0, - 1]" 7, where ?'e = unit]
    Join_validation [of "[5]" "[0, 1]" 7, where ?'e = unit]
  by simp

text \<open>
  Claim C5 as stated has no condition on the modulus. The test for a negative entry is
  made inside the outer loop, one share at a time, so the interpolation of the shares
  before the negative entry has been done when it is found: with the modulus zero
  that work panics first.
\<close>

theorem Join_validation_zero_modulus_counterexample:
  "length [1, 1 :: int] = length [0, - 1 :: goint] \<and> sint (- 1 :: goint) < 0
   \<and> Join [1, 1] [0, - 1] 0 = (Inl PanicDivisionByZero :: unit error + int)"
proof -
  have "[0..<2] = [0, Suc 0]" by (simp add: upt_rec)
  then show ?thesis by (simp add: Join_def Let_def)
qed

theorem Join_returns_number_witness:
  "length [1, 1 :: int] = length [0, 2 :: goint]
   \<and> 0 \<le> sint (0 :: goint) \<and> 0 \<le> sint (2 :: goint) \<and> (4 :: int) \<noteq> 0
   \<and> (\<exists>v. Join [1, 1] [0, 2] 4 = (Inr v :: unit error + int) \<and> 0 \<le> v \<and> v < \<bar>4\<bar>)"
proof -
  have "\<forall>w \<in> set [0, 2 :: goint]. 0 \<le> sint w" by simp
  from Join_returns_number [of "[1, 1]" "[0, 2]" 4, OF _ this, where ?'e = unit]
  show ?thesis by simp
qed

lemma xcoord_examples: "xcoord 0 = 1" "xcoord 2 = 3" "xcoord 9 = 10"
  by (simp_all add: xcoord_def)

text \<open>
  Claim C2 as stated asks for an error here: the modulus 4 is not prime and the
  difference of the evaluation points 3 and 1 has the factor 2 in common with it.
\<close>

theorem Join_no_inverse_counterexample:
  "\<not> is_prime 4 \<and> gcd (xcoord 2 - xcoord 0) 4 = (2 :: int)
   \<and> Join [1, 1] [0, 2] 4 = (Inr 0 :: unit error + int)"
proof -
  have "(2 :: int) \<in> {2..<4} \<and> (2 :: int) dvd 4" by simp
  then have p: "\<not> is_prime 4" unfolding is_prime_def by blast
  have g: "gcd (xcoord 2 - xcoord 0) 4 = (2 :: int)"
    by (simp add: xcoord_examples)
  have u: "[0..<2] = [0, Suc 0]" by (simp add: upt_rec)
  have e1: "egcd 2 4 = (1, 0)" by (simp add: egcd.simps)
  have j: "Join [1, 1] [0, 2] 4 = (Inr 0 :: unit error + int)"
    by (simp add: Join_def u Let_def xcoord_examples diffNorm_def invNorm_def GCD_x_def
        GCD_x_neg_def e1 bigMod_def)
  from p g j show ?thesis by blast
qed



section \<open>Interpolation at zero, modulo \<open>p\<close>\<close>

lemma invOn_subset: "invOn p X W I \<Longrightarrow> J \<subseteq> I \<Longrightarrow> invOn p X W J"
  unfolding invOn_def by blast

lemma invOn_pair: "invOn p X W I \<Longrightarrow> i \<in> I \<Longrightarrow> j \<in> I \<Longrightarrow> i \<noteq> j \<Longrightarrow>
  ((X j - X i) * W i j) mod p = 1 mod p"
  unfolding invOn_def by blast

lemma mod_sum_cong:
  fixes p :: int
  assumes "\<And>i. i \<in> I \<Longrightarrow> f i mod p = g i mod p"
  shows "sum f I mod p = sum g I mod p"
proof -
  have "sum f I mod p = (\<Sum>i \<in> I. f i mod p) mod p" by (simp only: mod_sum_eq)
  also have "(\<Sum>i \<in> I. f i mod p) = (\<Sum>i \<in> I. g i mod p)"
    by (rule sum.cong) (simp_all add: assms)
  also have "(\<Sum>i \<in> I. g i mod p) mod p = sum g I mod p" by (simp only: mod_sum_eq)
  finally show ?thesis .
qed

lemma divDiff_reduce:
  assumes "finite I" and "z \<in> I" and "invOn p X W I"
  shows "divDiff X W I (\<lambda>t. (X z - t) * h t) mod p = divDiff X W (I - {z}) h mod p"
proof -
  have "divDiff X W I (\<lambda>t. (X z - t) * h t)
      = (\<Sum>i \<in> I - {z}. (X z - X i) * h (X i) * (\<Prod>j \<in> I - {i}. W i j))"
    unfolding divDiff_def using assms(1,2) by (simp add: sum.remove [of I z])
  moreover have "(\<Sum>i \<in> I - {z}. (X z - X i) * h (X i) * (\<Prod>j \<in> I - {i}. W i j)) mod p
      = (\<Sum>i \<in> I - {z}. h (X i) * (\<Prod>j \<in> I - {z} - {i}. W i j)) mod p"
  proof (rule mod_sum_cong)
    fix i assume i: "i \<in> I - {z}"
    let ?P = "\<Prod>j \<in> I - {z} - {i}. W i j"
    have e1: "(\<Prod>j \<in> I - {i}. W i j) = W i z * (\<Prod>j \<in> I - {i} - {z}. W i j)"
      using assms(1,2) i by (intro prod.remove) auto
    have e2: "I - {i} - {z} = I - {z} - {i}" by auto
    have "(X z - X i) * h (X i) * (\<Prod>j \<in> I - {i}. W i j)
        = ((X z - X i) * W i z) * (h (X i) * ?P)"
      unfolding e1 e2 by (simp only: mult_ac)
    moreover have "(((X z - X i) * W i z) * (h (X i) * ?P)) mod p = (1 * (h (X i) * ?P)) mod p"
      using invOn_pair [OF assms(3), of i z] i assms(2)
      by (intro mod_mult_cong) auto
    ultimately show "((X z - X i) * h (X i) * (\<Prod>j \<in> I - {i}. W i j)) mod p = (h (X i) * ?P) mod p"
      by (simp only: mult_1)
  qed
  ultimately show ?thesis by (simp add: divDiff_def)
qed

lemma divDiff_card1:
  assumes "card J = 1"
  shows "divDiff X W J (\<lambda>_. 1) = 1"
proof -
  from assms obtain a where "J = {a}" by (rule card_1_singletonE)
  then show ?thesis by (simp add: divDiff_def)
qed

lemma mod_cancel_unit:
  fixes p :: int
  assumes "(u * w) mod p = 1 mod p" and "(u * d) mod p = 0"
  shows "d mod p = 0"
proof -
  have "d mod p = (1 * d) mod p" by simp
  also have "\<dots> = ((u * w) * d) mod p"
    using assms(1) by (intro mod_mult_cong) simp_all
  also have "(u * w) * d = w * (u * d)" by (simp add: mult_ac)
  also have "(w * (u * d)) mod p = (w * 0) mod p"
    using assms(2) by (intro mod_mult_cong) simp_all
  finally show ?thesis by simp
qed

lemma divDiff_one:
  assumes "finite I" and "2 \<le> card I" and "invOn p X W I"
  shows "divDiff X W I (\<lambda>_. 1) mod p = 0"
  using assms
proof (induction "card I" arbitrary: I rule: less_induct)
  case less
  note fin = less.prems(1) and c2 = less.prems(2) and inv = less.prems(3)
  from c2 have "I \<noteq> {}" by auto
  then obtain z where z: "z \<in> I" by blast
  with fin have cz: "card (I - {z}) = card I - 1" by simp
  with c2 have "card (I - {z}) \<noteq> 0" by simp
  then have "I - {z} \<noteq> {}" by (metis card.empty)
  then obtain w where w: "w \<in> I" "w \<noteq> z" by blast
  with fin have cw: "card (I - {w}) = card I - 1" by simp
  let ?D = "divDiff X W I (\<lambda>_. 1)"
  have r1: "divDiff X W I (\<lambda>t. (X w - t) * 1) mod p = divDiff X W (I - {w}) (\<lambda>_. 1) mod p"
    by (rule divDiff_reduce [OF fin w(1) inv])
  have r2: "divDiff X W I (\<lambda>t. (X z - t) * 1) mod p = divDiff X W (I - {z}) (\<lambda>_. 1) mod p"
    by (rule divDiff_reduce [OF fin z inv])
  have smaller: "divDiff X W (I - {v}) (\<lambda>_. 1) mod p = 0"
    if "v \<in> I" and "card I \<noteq> 2" for v
  proof (rule less.hyps)
    from that fin c2 show "card (I - {v}) < card I" by (simp add: card_Diff1_less)
    from fin show "finite (I - {v})" by simp
    from that fin c2 show "2 \<le> card (I - {v})" by simp
    from inv show "invOn p X W (I - {v})" by (rule invOn_subset) blast
  qed
  have same: "divDiff X W (I - {w}) (\<lambda>_. 1) mod p = divDiff X W (I - {z}) (\<lambda>_. 1) mod p"
  proof (cases "card I = 2")
    case True
    with cz cw have "card (I - {w}) = 1" "card (I - {z}) = 1" by simp_all
    then show ?thesis by (simp only: divDiff_card1)
  next
    case False
    from smaller [OF w(1) False] smaller [OF z False] show ?thesis by simp
  qed
  have lin: "(X w - X z) * ?D
      = divDiff X W I (\<lambda>t. (X w - t) * 1) - divDiff X W I (\<lambda>t. (X z - t) * 1)"
  proof -
    have "(\<Sum>i \<in> I. (X w - X i) * 1 * (\<Prod>j \<in> I - {i}. W i j))
        - (\<Sum>i \<in> I. (X z - X i) * 1 * (\<Prod>j \<in> I - {i}. W i j))
        = (\<Sum>i \<in> I. (X w - X i) * 1 * (\<Prod>j \<in> I - {i}. W i j)
            - (X z - X i) * 1 * (\<Prod>j \<in> I - {i}. W i j))"
      by (simp only: sum_subtractf)
    also have "\<dots> = (\<Sum>i \<in> I. (X w - X z) * (1 * (\<Prod>j \<in> I - {i}. W i j)))"
      by (rule sum.cong) (simp_all add: algebra_simps)
    also have "\<dots> = (X w - X z) * (\<Sum>i \<in> I. 1 * (\<Prod>j \<in> I - {i}. W i j))"
      by (simp only: sum_distrib_left)
    finally show ?thesis unfolding divDiff_def by simp
  qed
  have "(divDiff X W I (\<lambda>t. (X w - t) * 1) - divDiff X W I (\<lambda>t. (X z - t) * 1)) mod p
      = (divDiff X W (I - {w}) (\<lambda>_. 1) - divDiff X W (I - {w}) (\<lambda>_. 1)) mod p"
    using r1 r2 same by (intro mod_diff_cong) simp_all
  then have zero: "((X w - X z) * ?D) mod p = 0"
    unfolding lin by simp
  from w(2) have "z \<noteq> w" by simp
  from invOn_pair [OF inv z w(1) this] zero show ?case
    by (rule mod_cancel_unit)
qed


lemma divDiff_monomial:
  assumes "finite I" and "m + 2 \<le> card I" and "invOn p X W I"
  shows "divDiff X W I (\<lambda>t. t ^ m) mod p = 0"
  using assms
proof (induction m arbitrary: I)
  case 0
  then show ?case by (simp add: divDiff_one)
next
  case (Suc m)
  note fin = Suc.prems(1) and cd = Suc.prems(2) and inv = Suc.prems(3)
  from cd have "I \<noteq> {}" by auto
  then obtain z where z: "z \<in> I" by blast
  let ?A = "divDiff X W I (\<lambda>t. t ^ m)"
  let ?B = "divDiff X W I (\<lambda>t. (X z - t) * t ^ m)"
  have split: "divDiff X W I (\<lambda>t. t ^ Suc m) = X z * ?A - ?B"
  proof -
    have "X z * (\<Sum>i \<in> I. X i ^ m * (\<Prod>j \<in> I - {i}. W i j))
        - (\<Sum>i \<in> I. (X z - X i) * X i ^ m * (\<Prod>j \<in> I - {i}. W i j))
      = (\<Sum>i \<in> I. X z * (X i ^ m * (\<Prod>j \<in> I - {i}. W i j))
            - (X z - X i) * X i ^ m * (\<Prod>j \<in> I - {i}. W i j))"
      by (simp only: sum_subtractf sum_distrib_left)
    also have "\<dots> = (\<Sum>i \<in> I. X i ^ Suc m * (\<Prod>j \<in> I - {i}. W i j))"
      by (rule sum.cong) (simp_all add: algebra_simps)
    finally show ?thesis unfolding divDiff_def by simp
  qed
  have a: "?A mod p = 0"
    using fin inv cd by (intro Suc.IH) simp_all
  have "divDiff X W (I - {z}) (\<lambda>t. t ^ m) mod p = 0"
  proof (rule Suc.IH)
    from fin show "finite (I - {z})" by simp
    from fin z cd show "m + 2 \<le> card (I - {z})" by simp
    from inv show "invOn p X W (I - {z})" by (rule invOn_subset) blast
  qed
  with divDiff_reduce [OF fin z inv, of "\<lambda>t. t ^ m"] have b: "?B mod p = 0" by simp
  have "(X z * ?A - ?B) mod p = (X z * 0 - 0) mod p"
    using a b by (intro mod_diff_cong mod_mult_cong) simp_all
  then show ?case unfolding split by simp
qed

lemma divDiff_polynomial:
  assumes "finite I" and "d + 1 \<le> card I" and "invOn p X W I"
  shows "divDiff X W I (\<lambda>t. \<Sum>j<d. a j * t ^ j) mod p = 0"
proof -
  have "divDiff X W I (\<lambda>t. \<Sum>j<d. a j * t ^ j)
      = (\<Sum>i \<in> I. \<Sum>j<d. a j * (X i ^ j * (\<Prod>l \<in> I - {i}. W i l)))"
    unfolding divDiff_def by (simp add: sum_distrib_right mult.assoc)
  also have "\<dots> = (\<Sum>j<d. \<Sum>i \<in> I. a j * (X i ^ j * (\<Prod>l \<in> I - {i}. W i l)))"
    by (rule sum.swap)
  also have "\<dots> = (\<Sum>j<d. a j * divDiff X W I (\<lambda>t. t ^ j))"
    unfolding divDiff_def by (simp only: sum_distrib_left)
  finally have eq: "divDiff X W I (\<lambda>t. \<Sum>j<d. a j * t ^ j)
      = (\<Sum>j<d. a j * divDiff X W I (\<lambda>t. t ^ j))" .
  have "(\<Sum>j<d. a j * divDiff X W I (\<lambda>t. t ^ j)) mod p = (\<Sum>j<d. 0) mod p"
  proof (rule mod_sum_cong)
    fix j assume "j \<in> {..<d}"
    with assms(2) have "j + 2 \<le> card I" by simp
    from divDiff_monomial [OF assms(1) this assms(3)]
    have "divDiff X W I (\<lambda>t. t ^ j) mod p = 0" .
    then have "(a j * divDiff X W I (\<lambda>t. t ^ j)) mod p = (a j * 0) mod p"
      by (intro mod_mult_cong) simp_all
    then show "(a j * divDiff X W I (\<lambda>t. t ^ j)) mod p = 0 mod p" by simp
  qed
  then show ?thesis unfolding eq by simp
qed


lemma lagrange0_one:
  assumes "finite I" and "I \<noteq> {}" and "invOn p X W I"
  shows "lagrange0 X W I (\<lambda>_. 1) mod p = 1 mod p"
  using assms
proof (induction I rule: finite_ne_induct)
  case (singleton x)
  then show ?case by (simp add: lagrange0_def)
next
  case (insert z F)
  note fin = insert.hyps(1) and ne = insert.hyps(2) and zF = insert.hyps(3)
    and inv = insert.prems
  let ?I = "insert z F"
  let ?Q = "\<lambda>i. \<Prod>j \<in> F - {i}. X j * W i j"
  let ?V = "\<lambda>i. \<Prod>j \<in> F - {i}. W i j"
  let ?PX = "\<Prod>j \<in> F. X j"
  have Iz: "?I - {z} = F" using zF by auto
  have Ii: "?I - {i} = insert z (F - {i})" if "i \<in> F" for i using that zF by auto
  have prodI: "(\<Prod>j \<in> ?I - {i}. g j) = g z * (\<Prod>j \<in> F - {i}. g j)"
    if "i \<in> F" for i and g :: "nat \<Rightarrow> int"
    unfolding Ii [OF that] using fin zF by (intro prod.insert) auto
  have L: "lagrange0 X W ?I (\<lambda>_. 1)
      = (\<Prod>j \<in> F. X j * W z j) + (\<Sum>i \<in> F. (X z * W i z) * ?Q i)"
  proof -
    have "lagrange0 X W ?I (\<lambda>_. 1)
        = 1 * (\<Prod>j \<in> ?I - {z}. X j * W z j)
          + (\<Sum>i \<in> F. 1 * (\<Prod>j \<in> ?I - {i}. X j * W i j))"
      unfolding lagrange0_def using fin zF by (rule sum.insert)
    also have "(\<Sum>i \<in> F. 1 * (\<Prod>j \<in> ?I - {i}. X j * W i j))
        = (\<Sum>i \<in> F. (X z * W i z) * ?Q i)"
      by (rule sum.cong) (simp_all add: prodI)
    finally show ?thesis by (simp add: Iz)
  qed
  have D: "divDiff X W ?I (\<lambda>_. 1)
      = (\<Prod>j \<in> F. W z j) + (\<Sum>i \<in> F. W i z * ?V i)"
  proof -
    have "divDiff X W ?I (\<lambda>_. 1)
        = 1 * (\<Prod>j \<in> ?I - {z}. W z j)
          + (\<Sum>i \<in> F. 1 * (\<Prod>j \<in> ?I - {i}. W i j))"
      unfolding divDiff_def using fin zF by (rule sum.insert)
    also have "(\<Sum>i \<in> F. 1 * (\<Prod>j \<in> ?I - {i}. W i j)) = (\<Sum>i \<in> F. W i z * ?V i)"
      by (rule sum.cong) (simp_all add: prodI)
    finally show ?thesis by (simp add: Iz)
  qed
  have step: "((X z * W i z) * ?Q i) mod p = (?Q i + ?PX * (W i z * ?V i)) mod p"
    if i: "i \<in> F" for i
  proof -
    have u: "((X z - X i) * W i z) mod p = 1 mod p"
      using inv i zF by (intro invOn_pair [of p X W ?I]) auto
    have px: "?PX = X i * (\<Prod>j \<in> F - {i}. X j)"
      using fin i by (rule prod.remove)
    have q: "?Q i = (\<Prod>j \<in> F - {i}. X j) * ?V i" by (rule prod.distrib)
    have "(X z * W i z) * ?Q i = ((X z - X i) * W i z) * ?Q i + X i * W i z * ?Q i"
      by (simp add: algebra_simps)
    also have "X i * W i z * ?Q i = ?PX * (W i z * ?V i)"
      unfolding px q by (simp only: mult_ac)
    finally have "(X z * W i z) * ?Q i = ((X z - X i) * W i z) * ?Q i + ?PX * (W i z * ?V i)" .
    moreover have "(((X z - X i) * W i z) * ?Q i + ?PX * (W i z * ?V i)) mod p
        = (1 * ?Q i + ?PX * (W i z * ?V i)) mod p"
      using u by (intro mod_add_cong mod_mult_cong) simp_all
    ultimately show ?thesis by (simp only: mult_1)
  qed
  have "(\<Sum>i \<in> F. (X z * W i z) * ?Q i) mod p = (\<Sum>i \<in> F. ?Q i + ?PX * (W i z * ?V i)) mod p"
    by (rule mod_sum_cong) (rule step)
  then have "lagrange0 X W ?I (\<lambda>_. 1) mod p
      = ((\<Prod>j \<in> F. X j * W z j) + (\<Sum>i \<in> F. ?Q i + ?PX * (W i z * ?V i))) mod p"
    unfolding L by (intro mod_add_cong) simp_all
  also have "(\<Prod>j \<in> F. X j * W z j) + (\<Sum>i \<in> F. ?Q i + ?PX * (W i z * ?V i))
      = lagrange0 X W F (\<lambda>_. 1) + ?PX * divDiff X W ?I (\<lambda>_. 1)"
  proof -
    have "(\<Prod>j \<in> F. X j * W z j) = ?PX * (\<Prod>j \<in> F. W z j)" by (rule prod.distrib)
    moreover have "(\<Sum>i \<in> F. ?Q i + ?PX * (W i z * ?V i))
        = (\<Sum>i \<in> F. ?Q i) + ?PX * (\<Sum>i \<in> F. W i z * ?V i)"
      by (simp only: sum.distrib sum_distrib_left)
    moreover have "lagrange0 X W F (\<lambda>_. 1) = (\<Sum>i \<in> F. ?Q i)"
      by (simp add: lagrange0_def)
    ultimately show ?thesis unfolding D by (simp add: algebra_simps)
  qed
  also have "(lagrange0 X W F (\<lambda>_. 1) + ?PX * divDiff X W ?I (\<lambda>_. 1)) mod p
      = (1 + ?PX * 0) mod p"
  proof (intro mod_add_cong mod_mult_cong)
    from inv have "invOn p X W F" by (rule invOn_subset) blast
    with insert.IH show "lagrange0 X W F (\<lambda>_. 1) mod p = 1 mod p" by simp
    have "2 \<le> card ?I" using fin ne zF by (simp add: Suc_le_eq card_gt_0_iff)
    with fin inv have "divDiff X W ?I (\<lambda>_. 1) mod p = 0"
      by (intro divDiff_one) simp_all
    then show "divDiff X W ?I (\<lambda>_. 1) mod p = 0 mod p" by simp
  qed simp
  finally show ?case by simp
qed

lemma lagrange0_polynomial:
  assumes "finite I" and "Suc d \<le> card I" and "invOn p X W I"
  shows "lagrange0 X W I (\<lambda>t. \<Sum>j<Suc d. a j * t ^ j) mod p = a 0 mod p"
proof -
  let ?h = "\<lambda>t. \<Sum>j<d. a (Suc j) * t ^ j"
  let ?PX = "\<Prod>j \<in> I. X j"
  from assms(2) have ne: "I \<noteq> {}" by auto
  have poly: "(\<Sum>j<Suc d. a j * t ^ j) = a 0 + t * ?h t" for t :: int
  proof -
    have "(\<Sum>j<Suc d. a j * t ^ j) = a 0 * t ^ 0 + (\<Sum>j<d. a (Suc j) * t ^ Suc j)"
      by (rule sum.lessThan_Suc_shift)
    also have "(\<Sum>j<d. a (Suc j) * t ^ Suc j) = t * ?h t"
      by (simp add: sum_distrib_left mult_ac)
    finally show ?thesis by simp
  qed
  have summand: "(a 0 + X i * ?h (X i)) * (\<Prod>j \<in> I - {i}. X j * W i j)
      = a 0 * (1 * (\<Prod>j \<in> I - {i}. X j * W i j))
        + ?PX * (?h (X i) * (\<Prod>j \<in> I - {i}. W i j))"
    if i: "i \<in> I" for i
  proof -
    have px: "?PX = X i * (\<Prod>j \<in> I - {i}. X j)"
      using assms(1) i by (rule prod.remove)
    have q: "(\<Prod>j \<in> I - {i}. X j * W i j)
        = (\<Prod>j \<in> I - {i}. X j) * (\<Prod>j \<in> I - {i}. W i j)"
      by (rule prod.distrib)
    show ?thesis unfolding px q by (simp add: algebra_simps)
  qed
  have "lagrange0 X W I (\<lambda>t. \<Sum>j<Suc d. a j * t ^ j)
      = (\<Sum>i \<in> I. a 0 * (1 * (\<Prod>j \<in> I - {i}. X j * W i j))
           + ?PX * (?h (X i) * (\<Prod>j \<in> I - {i}. W i j)))"
    unfolding lagrange0_def poly by (rule sum.cong) (simp_all only: summand)
  also have "\<dots> = a 0 * lagrange0 X W I (\<lambda>_. 1) + ?PX * divDiff X W I ?h"
    unfolding lagrange0_def divDiff_def by (simp only: sum.distrib sum_distrib_left)
  finally have eq: "lagrange0 X W I (\<lambda>t. \<Sum>j<Suc d. a j * t ^ j)
      = a 0 * lagrange0 X W I (\<lambda>_. 1) + ?PX * divDiff X W I ?h" .
  have "(a 0 * lagrange0 X W I (\<lambda>_. 1) + ?PX * divDiff X W I ?h) mod p
      = (a 0 * 1 + ?PX * 0) mod p"
  proof (intro mod_add_cong mod_mult_cong)
    show "lagrange0 X W I (\<lambda>_. 1) mod p = 1 mod p"
      by (rule lagrange0_one [OF assms(1) ne assms(3)])
    from assms(2) have "d + 1 \<le> card I" by simp
    from divDiff_polynomial [OF assms(1) this assms(3)]
    show "divDiff X W I ?h mod p = 0 mod p" by simp
  qed simp_all
  then show ?thesis unfolding eq by simp
qed

section \<open>The sum \<open>Join\<close> computes\<close>

lemma joinInner_prod:
  assumes "m \<noteq> 0"
  shows "\<exists>c'. joinInner nums m i js c = (Inr c' :: 'e error + int)
    \<and> c' mod \<bar>m\<bar> =
        (c * (\<Prod>j\<leftarrow>filter (\<lambda>j. j \<noteq> i) js.
                xcoord (nums ! j) * invNorm m (diffNorm m (xcoord (nums ! i)) (xcoord (nums ! j)))))
        mod \<bar>m\<bar>"
proof (induction js arbitrary: c)
  case Nil
  then show ?case by simp
next
  case (Cons j js)
  let ?f = "\<lambda>j. xcoord (nums ! j) * invNorm m (diffNorm m (xcoord (nums ! i)) (xcoord (nums ! j)))"
  let ?P = "\<Prod>j\<leftarrow>filter (\<lambda>j. j \<noteq> i) js. ?f j"
  show ?case
  proof (cases "i = j")
    case True
    with Cons.IH [of c] show ?thesis by simp
  next
    case False
    from Cons.IH [of "bigMod (c * ?f j) m"] obtain c' where
      c': "joinInner nums m i js (bigMod (c * ?f j) m) = (Inr c' :: 'e error + int)"
      "c' mod \<bar>m\<bar> = (bigMod (c * ?f j) m * ?P) mod \<bar>m\<bar>" by blast
    have "(bigMod (c * ?f j) m * ?P) mod \<bar>m\<bar> = ((c * ?f j) * ?P) mod \<bar>m\<bar>"
      unfolding bigMod_def by (rule mod_mult_left_eq)
    also have "(c * ?f j) * ?P = c * (?f j * ?P)" by (simp only: mult.assoc)
    finally have "c' mod \<bar>m\<bar> = (c * (?f j * ?P)) mod \<bar>m\<bar>" using c'(2) by simp
    moreover have "joinInner nums m i (j # js) c
        = (joinInner nums m i js (bigMod (c * ?f j) m) :: 'e error + int)"
      using False assms by (simp add: Let_def mult.assoc)
    ultimately show ?thesis using False c'(1) by auto
  qed
qed

lemma joinOuter_sum:
  assumes "m \<noteq> 0"
  shows "\<forall>i \<in> set is. 0 \<le> sint (nums ! i) \<Longrightarrow>
    joinOuter shares nums m is acc =
      (Inr ((acc + (\<Sum>i\<leftarrow>is. (\<Prod>j\<leftarrow>filter (\<lambda>j. j \<noteq> i) [0..<length shares].
                xcoord (nums ! j) * invNorm m (diffNorm m (xcoord (nums ! i)) (xcoord (nums ! j))))
              * shares ! i)) mod \<bar>m\<bar>) :: 'e error + int)"
proof (induction "is" arbitrary: acc)
  case Nil
  with assms show ?case by (simp add: bigMod_def)
next
  case (Cons i "is")
  let ?P = "\<lambda>i. \<Prod>j\<leftarrow>filter (\<lambda>j. j \<noteq> i) [0..<length shares].
                xcoord (nums ! j) * invNorm m (diffNorm m (xcoord (nums ! i)) (xcoord (nums ! j)))"
  let ?S = "\<Sum>i\<leftarrow>is. ?P i * shares ! i"
  from joinInner_prod [OF assms, of nums i "[0..<length shares]" 1] obtain c where
    c: "joinInner nums m i [0..<length shares] 1 = (Inr c :: 'e error + int)"
    "c mod \<bar>m\<bar> = (1 * ?P i) mod \<bar>m\<bar>" by blast
  from Cons.prems have nn: "\<not> sint (nums ! i) < 0" and rest: "\<forall>i \<in> set is. 0 \<le> sint (nums ! i)"
    by simp_all
  have "joinOuter shares nums m (i # is) acc
      = (joinOuter shares nums m is (acc + c * shares ! i) :: 'e error + int)"
    using nn c(1) by simp
  also have "\<dots> = Inr ((acc + c * shares ! i + ?S) mod \<bar>m\<bar>)"
    by (rule Cons.IH [OF rest])
  also have "(acc + c * shares ! i + ?S) mod \<bar>m\<bar> = (acc + ?P i * shares ! i + ?S) mod \<bar>m\<bar>"
    using c(2) by (intro mod_add_cong mod_mult_cong) simp_all
  finally show ?case by (simp add: add.assoc)
qed

lemma prod_list_others:
  "(\<Prod>j\<leftarrow>filter (\<lambda>j. j \<noteq> i) [0..<n]. f j) = (\<Prod>j \<in> {..<n} - {i}. f j)"
proof -
  have "distinct (filter (\<lambda>j. j \<noteq> i) [0..<n])" by simp
  then have "(\<Prod>j\<leftarrow>filter (\<lambda>j. j \<noteq> i) [0..<n]. f j) = prod f (set (filter (\<lambda>j. j \<noteq> i) [0..<n]))"
    by (rule prod.distinct_set_conv_list [symmetric])
  also have "set (filter (\<lambda>j. j \<noteq> i) [0..<n]) = {..<n} - {i}" by auto
  finally show ?thesis .
qed

lemma Join_closed:
  assumes "length shares = length nums" and "\<forall>w \<in> set nums. 0 \<le> sint w" and "m \<noteq> 0"
  shows "Join shares nums m =
    (Inr ((\<Sum>i<length nums. shares ! i *
            (\<Prod>j \<in> {..<length nums} - {i}.
               xcoord (nums ! j) * invNorm m (diffNorm m (xcoord (nums ! i)) (xcoord (nums ! j)))))
         mod \<bar>m\<bar>) :: 'e error + int)"
proof -
  have "\<forall>i \<in> set [0..<length shares]. 0 \<le> sint (nums ! i)"
    using assms(1,2) by simp
  moreover have "set [0..<length nums] = {..<length nums}" by auto
  ultimately show ?thesis
    using joinOuter_sum [OF assms(3), of "[0..<length shares]" nums shares 0]
    by (simp add: Join_def assms(1) prod_list_others interv_sum_list_conv_sum_set_nat
        mult.commute del: set_upt)
qed


lemma joinOuter_zero_modulus:
  "\<forall>i \<in> set is. 0 \<le> sint (nums ! i) \<Longrightarrow>
   joinOuter shares nums 0 is acc = (Inl PanicDivisionByZero :: 'e error + int)"
proof (induction "is" arbitrary: acc)
  case Nil
  then show ?case by simp
next
  case (Cons i "is")
  then have nn: "\<not> sint (nums ! i) < 0" and rest: "\<forall>i \<in> set is. 0 \<le> sint (nums ! i)"
    by simp_all
  show ?case
  proof (cases "joinInner nums 0 i [0..<length shares] 1 :: 'e error + int")
    case (Inl e)
    with joinInner_error [OF Inl] nn show ?thesis by simp
  next
    case (Inr c)
    with nn Cons.IH [OF rest] show ?thesis by simp
  qed
qed

lemma bij_betw_remove_point:
  assumes "bij_betw f A A" and "i \<in> A"
  shows "bij_betw f (A - {i}) (A - {f i})"
proof (rule bij_betw_subset [OF assms(1)])
  show "A - {i} \<subseteq> A" by blast
  from assms(1) have inj: "inj_on f A" and img: "f ` A = A" by (simp_all add: bij_betw_def)
  from inj assms(2) have "f ` (A - {i}) = f ` A - f ` {i}"
    by (intro inj_on_image_set_diff [of f A]) auto
  then show "f ` (A - {i}) = A - {f i}" by (simp add: img)
qed

text \<open>
  Claim C8. For sequences of equal length without a negative share number, and every
  permutation \<open>\<pi>\<close> of their positions, \<open>Join\<close> of the shares and share numbers both
  reordered by \<open>\<pi>\<close> returns what \<open>Join\<close> of the original order returns: the same number,
  or, for the modulus zero, the same panic.
\<close>

theorem Join_order_independent:
  assumes "length shares = length nums"
    and "\<forall>w \<in> set nums. 0 \<le> sint w"
    and "bij_betw \<pi> {..<length nums} {..<length nums}"
  shows "Join (map (\<lambda>i. shares ! \<pi> i) [0..<length nums])
              (map (\<lambda>i. nums ! \<pi> i) [0..<length nums]) m
         = (Join shares nums m :: 'e error + int)"
proof -
  let ?n = "length nums"
  let ?shares' = "map (\<lambda>i. shares ! \<pi> i) [0..<?n]"
  let ?nums' = "map (\<lambda>i. nums ! \<pi> i) [0..<?n]"
  have len': "length ?shares' = length ?nums'" and n': "length ?nums' = ?n" by simp_all
  have in_range: "\<pi> i < ?n" if "i < ?n" for i
    using assms(3) that by (auto simp: bij_betw_def)
  have nn': "\<forall>w \<in> set ?nums'. 0 \<le> sint w"
    using assms(2) in_range by auto
  show ?thesis
  proof (cases "m = 0")
    case True
    have "\<forall>i \<in> set [0..<length shares]. 0 \<le> sint (nums ! i)"
      using assms(1,2) by simp
    then have a: "Join shares nums m = (Inl PanicDivisionByZero :: 'e error + int)"
      unfolding Join_def True using assms(1) by (simp add: joinOuter_zero_modulus del: set_upt)
    have "\<forall>i \<in> set [0..<length ?shares']. 0 \<le> sint (?nums' ! i)"
      using nn' by simp
    then have "joinOuter ?shares' ?nums' 0 [0..<length ?shares'] 0
        = (Inl PanicDivisionByZero :: 'e error + int)"
      by (rule joinOuter_zero_modulus)
    then have "Join ?shares' ?nums' m = (Inl PanicDivisionByZero :: 'e error + int)"
      unfolding Join_def True by simp
    with a show ?thesis by simp
  next
    case False
    let ?F = "\<lambda>a b. xcoord (nums ! b) * invNorm m (diffNorm m (xcoord (nums ! a)) (xcoord (nums ! b)))"
    let ?G = "\<lambda>a. shares ! a * (\<Prod>b \<in> {..<?n} - {a}. ?F a b)"
    have "(\<Sum>i<length ?nums'. ?shares' ! i *
            (\<Prod>j \<in> {..<length ?nums'} - {i}.
               xcoord (?nums' ! j) * invNorm m (diffNorm m (xcoord (?nums' ! i)) (xcoord (?nums' ! j)))))
        = (\<Sum>i<?n. ?G (\<pi> i))"
      unfolding n'
    proof (rule sum.cong)
      fix i assume "i \<in> {..<?n}"
      then have i: "i < ?n" by simp
      have "(\<Prod>j \<in> {..<?n} - {i}.
               xcoord (?nums' ! j) * invNorm m (diffNorm m (xcoord (?nums' ! i)) (xcoord (?nums' ! j))))
          = (\<Prod>j \<in> {..<?n} - {i}. ?F (\<pi> i) (\<pi> j))"
        by (rule prod.cong) (simp_all add: i)
      also have "\<dots> = (\<Prod>b \<in> {..<?n} - {\<pi> i}. ?F (\<pi> i) b)"
        using bij_betw_remove_point [OF assms(3), of i] i
        by (intro prod.reindex_bij_betw) simp
      finally show "?shares' ! i *
            (\<Prod>j \<in> {..<?n} - {i}.
               xcoord (?nums' ! j) * invNorm m (diffNorm m (xcoord (?nums' ! i)) (xcoord (?nums' ! j))))
          = ?G (\<pi> i)"
        by (simp add: i)
    qed simp
    also have "\<dots> = (\<Sum>a<?n. ?G a)"
      using assms(3) by (rule sum.reindex_bij_betw)
    finally show ?thesis
      unfolding Join_closed [OF len' nn' False] Join_closed [OF assms(1,2) False]
      by simp
  qed
qed


section \<open>Splitting, then joining\<close>

lemma prime_coprime:
  assumes "is_prime p" and "0 < d" and "d < p"
  shows "gcd d p = 1"
proof (rule ccontr)
  assume ne: "gcd d p \<noteq> 1"
  let ?g = "gcd d p"
  from assms have "0 < ?g" by simp
  with ne have "2 \<le> ?g" by linarith
  moreover have "?g dvd d" by simp
  with assms(2) have "?g \<le> d" by (simp add: zdvd_imp_le)
  with assms(3) have "?g < p" by simp
  ultimately have "?g \<in> {2..<p}" by simp
  moreover have "?g dvd p" by simp
  ultimately show False using assms(1) unfolding is_prime_def by blast
qed

lemma xcoord_of_nat:
  assumes "v < nat (sint (n :: goint))"
  shows "sint (of_nat v :: goint) = int v" and "xcoord (of_nat v) = int v + 1"
proof -
  have "sint n < 2 ^ 63" using sint_lt [of n] by simp
  with assms have b: "int v + 1 < 2 ^ 63" by simp
  then show "sint (of_nat v :: goint) = int v"
    by (simp add: signed_take_bit_int_eq_self signed_of_nat)
  from b show "xcoord (of_nat v) = int v + 1"
    unfolding xcoord_def
    by (simp add: signed_take_bit_int_eq_self sint_word_ariths signed_of_nat)
qed

lemma inverse_of_difference:
  assumes "p \<noteq> 0" and "gcd (xj - xi) p = 1"
  shows "((xj - xi) * invNorm p (diffNorm p xi xj)) mod p = 1 mod p"
proof -
  let ?d = "diffNorm p xi xj"
  have "gcd (xj - xi + p) p = gcd (xj - xi) p" by (rule gcd_add1)
  with assms(2) have "gcd ?d p = 1" by (simp add: diffNorm_def Let_def)
  with assms(1) have "(?d * invNorm p ?d) mod p = 1 mod p"
    using invNorm_bezout [of p ?d] by simp
  moreover have "((xj - xi) * invNorm p ?d) mod p = (?d * invNorm p ?d) mod p"
    by (intro mod_mult_cong) (simp_all add: diffNorm_mod)
  ultimately show ?thesis by simp
qed

lemma Split_Join_general:
  assumes pos: "0 < p"
    and cop: "sint k = 1 \<or> (\<forall>d \<in> {1..<sint n}. gcd d p = 1)"
    and sp: "Split secret p k n (rd :: 'e reader) = Some (Inr shares, rd')"
    and di: "distinct idx" and li: "length idx = nat (sint k)"
    and su: "set idx \<subseteq> {..<nat (sint n)}"
  shows "Join (map (\<lambda>i. shares ! i) idx) (map of_nat idx) p = (Inr (secret mod p) :: 'f error + int)"
proof -
  from pos have p0: "p \<noteq> 0" and pabs: "\<bar>p\<bar> = p" by simp_all
  from Split_success [OF sp] obtain as where
    kn: "1 \<le> sint k" "sint k \<le> sint n" and
    co: "coefficients (p - 1) (nat (sint k - 1)) rd = Some (Inr as, rd')" and
    sl: "shareLoop (secret # as) p [1..sint n] = (Inr shares :: 'e error + int list)"
    by blast
  from coefficients_run [OF co] have la: "length as = nat (sint k - 1)" by blast
  define a where "a = secret # as"
  define kk where "kk = nat (sint k)"
  define d where "d = length as"
  from la kn have kd: "kk = Suc d" and lena: "length a = Suc d"
    by (simp_all add: kk_def d_def a_def)
  from shareLoop_shares [OF sl] have
    sh: "shares = map (\<lambda>i. bigMod (evalAt a i) p) [1..sint n]" by (simp add: a_def)
  have share_at: "shares ! v = evalAt a (int v + 1) mod p" if "v < nat (sint n)" for v
  proof -
    from that have "[1..sint n] ! v = 1 + int v" by (intro nth_upto) simp
    with that show ?thesis by (simp add: sh bigMod_def pabs add.commute)
  qed
  define X where "X = (\<lambda>t. int (idx ! t) + 1)"
  define W where "W = (\<lambda>t u. invNorm p (diffNorm p (X t) (X u)))"
  let ?nums = "map of_nat idx :: goint list"
  let ?sh = "map (\<lambda>i. shares ! i) idx"
  have lens: "length ?sh = length ?nums" and lenn: "length ?nums = kk"
    by (simp_all add: li kk_def)
  have idx_lt: "idx ! t < nat (sint n)" if "t < kk" for t
  proof -
    from that li have "idx ! t \<in> set idx" by (simp add: kk_def)
    with su show ?thesis by blast
  qed
  have nn: "\<forall>w \<in> set ?nums. 0 \<le> sint w"
  proof
    fix w assume "w \<in> set ?nums"
    then obtain v where v: "v \<in> set idx" "w = of_nat v" by auto
    with su have "v < nat (sint n)" by auto
    from xcoord_of_nat(1) [OF this] v(2) show "0 \<le> sint w" by simp
  qed
  have xc: "xcoord (?nums ! t) = X t" if "t < kk" for t
    using that xcoord_of_nat(2) [OF idx_lt [OF that]] by (simp add: X_def li kk_def)
  have Xrange: "1 \<le> X t \<and> X t \<le> sint n" if "t < kk" for t
    using idx_lt [OF that] by (simp add: X_def)
  have Xinj: "X t \<noteq> X u" if "t < kk" "u < kk" "t \<noteq> u" for t u
    using that di li by (simp add: X_def kk_def nth_eq_iff_index_eq)
  have inv: "invOn p X W {..<kk}"
    unfolding invOn_def W_def
  proof (intro ballI impI)
    fix t u assume "t \<in> {..<kk}" "u \<in> {..<kk}" "t \<noteq> u"
    then have t: "t < kk" and u: "u < kk" by simp_all
    from t u \<open>t \<noteq> u\<close> have "sint k \<noteq> 1" by (auto simp: kk_def)
    with cop have co: "\<forall>d \<in> {1..<sint n}. gcd d p = 1" by simp
    let ?e = "X u - X t"
    from Xrange [OF t] Xrange [OF u] Xinj [OF t u \<open>t \<noteq> u\<close>]
    have "\<bar>?e\<bar> \<in> {1..<sint n}" by auto
    with co have "gcd \<bar>?e\<bar> p = 1" by blast
    then have "gcd ?e p = 1" by simp
    with p0 show "((X u - X t) * invNorm p (diffNorm p (X t) (X u))) mod p = 1 mod p"
      by (rule inverse_of_difference)
  qed
  have "(\<Sum>t<length ?nums. ?sh ! t *
            (\<Prod>u \<in> {..<length ?nums} - {t}.
               xcoord (?nums ! u) * invNorm p (diffNorm p (xcoord (?nums ! t)) (xcoord (?nums ! u)))))
      = (\<Sum>t<kk. (evalAt a (X t) mod p) * (\<Prod>u \<in> {..<kk} - {t}. X u * W t u))"
    unfolding lenn
  proof (rule sum.cong)
    fix t assume "t \<in> {..<kk}"
    then have t: "t < kk" by simp
    have "(\<Prod>u \<in> {..<kk} - {t}.
               xcoord (?nums ! u) * invNorm p (diffNorm p (xcoord (?nums ! t)) (xcoord (?nums ! u))))
        = (\<Prod>u \<in> {..<kk} - {t}. X u * W t u)"
      by (rule prod.cong) (simp_all add: xc t W_def)
    moreover have "?sh ! t = evalAt a (X t) mod p"
      using t share_at [OF idx_lt [OF t]] by (simp add: li kk_def X_def)
    ultimately show "?sh ! t *
            (\<Prod>u \<in> {..<kk} - {t}.
               xcoord (?nums ! u) * invNorm p (diffNorm p (xcoord (?nums ! t)) (xcoord (?nums ! u))))
        = (evalAt a (X t) mod p) * (\<Prod>u \<in> {..<kk} - {t}. X u * W t u)"
      by simp
  qed simp
  then have jc: "Join ?sh ?nums p
      = (Inr ((\<Sum>t<kk. (evalAt a (X t) mod p) * (\<Prod>u \<in> {..<kk} - {t}. X u * W t u)) mod p)
          :: 'f error + int)"
    using Join_closed [OF lens nn p0, where ?'e = 'f] by (simp add: pabs)
  have "(\<Sum>t<kk. (evalAt a (X t) mod p) * (\<Prod>u \<in> {..<kk} - {t}. X u * W t u)) mod p
      = (\<Sum>t<kk. evalAt a (X t) * (\<Prod>u \<in> {..<kk} - {t}. X u * W t u)) mod p"
    by (rule mod_sum_cong) (simp add: mod_mult_left_eq)
  also have "(\<Sum>t<kk. evalAt a (X t) * (\<Prod>u \<in> {..<kk} - {t}. X u * W t u))
      = lagrange0 X W {..<kk} (\<lambda>x. \<Sum>j<Suc d. a ! j * x ^ j)"
    unfolding lagrange0_def evalAt_sum lena ..
  also have "\<dots> mod p = a ! 0 mod p"
    by (rule lagrange0_polynomial [OF _ _ inv]) (simp_all add: kd)
  finally show ?thesis unfolding jc by (simp add: a_def)
qed

lemma swap_bij:
  "bij_betw (\<lambda>i. 1 - i) {..<length [0, 1 :: goint]} {..<length [0, 1 :: goint]}"
proof -
  have s: "{..<length [0, 1 :: goint]} = {0, 1}" by auto
  show ?thesis unfolding s bij_betw_def by (auto simp: inj_on_def)
qed

theorem Join_order_independent_witness:
  "length [3, 5 :: int] = length [0, 1 :: goint]
   \<and> 0 \<le> sint (0 :: goint) \<and> 0 \<le> sint (1 :: goint)
   \<and> bij_betw (\<lambda>i. 1 - i) {..<length [0, 1 :: goint]} {..<length [0, 1 :: goint]}
   \<and> Join (map (\<lambda>i. [3, 5] ! (1 - i)) [0..<length [0, 1 :: goint]])
            (map (\<lambda>i. [0, 1 :: goint] ! (1 - i)) [0..<length [0, 1 :: goint]]) 7
       = (Join [3, 5] [0, 1] 7 :: unit error + int)"
proof -
  have nn: "\<forall>w \<in> set [0, 1 :: goint]. 0 \<le> sint w" by simp
  have l: "length [3, 5 :: int] = length [0, 1 :: goint]" by simp
  note b = swap_bij
  from Join_order_independent [OF l nn b, where ?'e = unit] have
    "Join (map (\<lambda>i. [3, 5] ! (1 - i)) [0..<length [0, 1 :: goint]])
            (map (\<lambda>i. [0, 1 :: goint] ! (1 - i)) [0..<length [0, 1 :: goint]]) 7
       = (Join [3, 5] [0, 1] 7 :: unit error + int)" .
  with l b show ?thesis by (intro conjI) simp_all
qed

text \<open>
  Claim C1, as amended. For every prime modulus, every secret with
  \<open>0 \<le> secret < modulus\<close>, every \<open>k\<close> and \<open>n\<close> with \<open>1 \<le> k \<le> n\<close> and with \<open>k = 1\<close> or
  \<open>n \<le> modulus\<close>, and every reader on which \<open>Split\<close> succeeds: \<open>Join\<close> of any \<open>k\<close> of the
  \<open>n\<close> shares, at the distinct zero-based positions \<open>idx\<close> and in any order, with these
  positions as share numbers, returns the secret. (\<open>secret < modulus\<close> and
  \<open>1 \<le> k \<le> n\<close> follow from the success of \<open>Split\<close>.)
\<close>

theorem Split_Join_roundtrip:
  assumes "is_prime modulus" and "0 \<le> secret"
    and "sint k = 1 \<or> sint n \<le> modulus"
    and "Split secret modulus k n rd = Some (Inr shares, rd')"
    and "distinct idx" and "length idx = nat (sint k)" and "set idx \<subseteq> {..<nat (sint n)}"
  shows "Join (map (\<lambda>i. shares ! i) idx) (map of_nat idx) modulus = (Inr secret :: 'f error + int)"
proof -
  from assms(1) have pos: "0 < modulus" by (simp add: is_prime_def)
  have cop: "sint k = 1 \<or> (\<forall>d \<in> {1..<sint n}. gcd d modulus = 1)"
  proof (cases "sint k = 1")
    case True
    then show ?thesis ..
  next
    case False
    with assms(3) have le: "sint n \<le> modulus" by simp
    have "gcd d modulus = 1" if "d \<in> {1..<sint n}" for d
      using that le by (intro prime_coprime [OF assms(1)]) simp_all
    then show ?thesis by blast
  qed
  from Split_success [OF assms(4)] have "secret < modulus" by blast
  with assms(2) have "secret mod modulus = secret" by simp
  with Split_Join_general [OF pos cop assms(4,5,6,7), where ?'f = 'f] show ?thesis by simp
qed

lemma is_prime_5: "is_prime 5"
proof -
  have "{2..<5::int} = {2, 3, 4}" by auto
  then show ?thesis by (simp add: is_prime_def)
qed

lemma is_prime_2: "is_prime 2"
  by (simp add: is_prime_def)

lemma Split_example_full:
  "Split 1 5 2 5 (Inr 2 ## sconst (Inl ())) = Some (Inr [4, 2, 0, 3, 1], sconst (Inl ()))"
proof -
  have c: "nat (sint (2::goint) - 1) = Suc 0" by simp
  have r: "randomNumber (Inr 2 ## sconst (Inl ())) 4 = Some (Inr 2, sconst (Inl ()))"
    apply (simp add: randomNumber_def BitLen_4)
    apply (subst randomLoop.simps)
    apply (simp add: SetBytes_def)
    done
  have e: "[0..<2] = [0, Suc 0]" by (simp add: upt_rec)
  have u: "[1..5::int] = [1, 2, 3, 4, 5]" by (simp add: upto_rec1)
  show ?thesis
    by (simp add: Split_def c r u evalAt_def e bigMod_def)
qed

theorem Split_Join_roundtrip_witness:
  "is_prime 5 \<and> (0 :: int) \<le> 1 \<and> sint (5 :: goint) \<le> 5
   \<and> Split 1 5 2 5 (Inr 2 ## sconst (Inl ())) = Some (Inr [4, 2, 0, 3, 1], sconst (Inl ()))
   \<and> distinct [4, 0 :: nat] \<and> length [4, 0 :: nat] = nat (sint (2 :: goint))
   \<and> set [4, 0 :: nat] \<subseteq> {..<nat (sint (5 :: goint))}
   \<and> Join (map (\<lambda>i. [4, 2, 0, 3, 1] ! i) [4, 0]) (map of_nat [4, 0]) 5
       = (Inr 1 :: unit error + int)"
proof -
  have h: "sint (2 :: goint) = 1 \<or> sint (5 :: goint) \<le> 5" "distinct [4, 0 :: nat]"
    "length [4, 0 :: nat] = nat (sint (2 :: goint))"
    "set [4, 0 :: nat] \<subseteq> {..<nat (sint (5 :: goint))}" by simp_all
  from Split_Join_roundtrip [OF is_prime_5 _ h(1) Split_example_full h(2,3,4), where ?'f = unit]
    is_prime_5 Split_example_full h(2,3,4)
  show ?thesis by simp
qed

text \<open>
  Claim C1 as stated has no bound on \<open>n\<close>. With \<open>k \<ge> 2\<close> and \<open>n > modulus\<close> two
  evaluation points agree modulo the modulus (here 1 and 3, modulo 2), their difference
  has no inverse, and \<open>Join\<close> of these two shares does not return the secret.
\<close>

theorem Split_Join_roundtrip_counterexample:
  "is_prime 2 \<and> (0 :: int) \<le> 1 \<and> (1 :: int) < 2
   \<and> (1 :: int) \<le> sint (2 :: goint) \<and> sint (2 :: goint) \<le> sint (3 :: goint)
   \<and> Split 1 2 2 3 (Inr 0 ## sconst (Inl ())) = Some (Inr [0, 1, 0], sconst (Inl ()))
   \<and> distinct [0, 2 :: nat] \<and> length [0, 2 :: nat] = nat (sint (2 :: goint))
   \<and> set [0, 2 :: nat] \<subseteq> {..<nat (sint (3 :: goint))}
   \<and> Join (map (\<lambda>i. [0, 1, 0] ! i) [0, 2]) (map of_nat [0, 2]) 2 = (Inr 0 :: unit error + int)
   \<and> (0 :: int) \<noteq> 1"
proof -
  have c: "nat (sint (2::goint) - 1) = Suc 0" by simp
  have b: "BitLen 1 = 1" by (simp add: BitLen_def bitLenNat.simps)
  have r: "randomNumber (Inr 0 ## sconst (Inl ())) 1 = Some (Inr 0, sconst (Inl ()))"
    apply (simp add: randomNumber_def b)
    apply (subst randomLoop.simps)
    apply (simp add: SetBytes_def)
    done
  have e: "[0..<2] = [0, Suc 0]" by (simp add: upt_rec)
  have u: "[1..3::int] = [1, 2, 3]" by (simp add: upto_rec1)
  have s: "Split 1 2 2 3 (Inr 0 ## sconst (Inl ())) = Some (Inr [0, 1, 0], sconst (Inl ()))"
    by (simp add: Split_def c r u evalAt_def e bigMod_def)
  have j: "Join (map (\<lambda>i. [0, 1, 0] ! i) [0, 2]) (map of_nat [0, 2]) 2 = (Inr 0 :: unit error + int)"
    by (simp add: Join_def e Let_def bigMod_def)
  from is_prime_2 s j show ?thesis by simp
qed


lemma Split_error_cases:
  assumes "Split secret modulus k n rd = Some (Inl e, rd')"
  shows "(e = InvalidParameters \<and> (sint k < 1 \<or> sint n < sint k))
    \<or> (e = SecretTooLarge \<and> modulus \<le> secret)
    \<or> e = PanicIndexOutOfRange \<or> e = PanicDivisionByZero \<or> (\<exists>x. e = RandomSourceFailure x)"
proof (cases "sint k < 1 \<or> sint n < sint k")
  case True
  with assms show ?thesis by (simp add: Split_def)
next
  case params: False
  show ?thesis
  proof (cases "modulus \<le> secret")
    case True
    with params assms show ?thesis by (simp add: Split_def)
  next
    case False
    with params assms have
      "(\<exists>rd1. coefficients (modulus - 1) (nat (sint k - 1)) rd = Some (Inl e, rd1))
       \<or> (\<exists>as. shareLoop (secret # as) modulus [1..sint n] = Inl e)"
      by (auto simp: Split_def split: option.splits sum.splits prod.splits)
    then show ?thesis
      by (auto dest: coefficients_error dest!: shareLoop_error)
  qed
qed

lemma Split_share_range:
  assumes "Split secret modulus k n (rd :: 'e reader) = Some (Inr shares, rd')"
  shows "\<forall>s \<in> set shares. 0 \<le> s \<and> s < \<bar>modulus\<bar>"
proof -
  from Split_success [OF assms] obtain as where
    kn: "1 \<le> sint k" "sint k \<le> sint n" and
    sl: "shareLoop (secret # as) modulus [1..sint n] = (Inr shares :: 'e error + int list)"
    by blast
  from shareLoop_shares [OF sl] kn have
    sh: "shares = map (\<lambda>i. bigMod (evalAt (secret # as) i) modulus) [1..sint n]"
    and m0: "modulus \<noteq> 0" by auto
  show ?thesis unfolding sh using bigMod_range [OF m0] by simp
qed

text \<open>
  Claim C9, as amended. \<open>Split\<close> does not test the sign of the secret. For a negative
  secret and a positive modulus \<open>Split\<close> never fails with \<open>SecretTooLarge\<close>; when it
  succeeds every share is in \<open>[0, modulus)\<close>; and when moreover \<open>k = 1\<close>, or every \<open>d\<close>
  with \<open>1 \<le> d < n\<close> is coprime to the modulus (for a prime modulus: \<open>n \<le> modulus\<close>),
  \<open>Join\<close> of any \<open>k\<close> of the shares returns \<open>secret mod modulus\<close>, which is not negative
  and so is not the secret.
\<close>

theorem Split_negative_secret:
  assumes "secret < 0" and "0 < modulus"
  shows "Split secret modulus k n rd \<noteq> Some (Inl SecretTooLarge, rd'')
    \<and> (Split secret modulus k n rd = Some (Inr shares, rd') \<longrightarrow>
         (\<forall>s \<in> set shares. 0 \<le> s \<and> s < modulus)
         \<and> ((sint k = 1 \<or> (\<forall>d \<in> {1..<sint n}. gcd d modulus = 1)) \<and> distinct idx
              \<and> length idx = nat (sint k) \<and> set idx \<subseteq> {..<nat (sint n)}
             \<longrightarrow> Join (map (\<lambda>i. shares ! i) idx) (map of_nat idx) modulus
                   = (Inr (secret mod modulus) :: 'f error + int)
                 \<and> 0 \<le> secret mod modulus \<and> secret mod modulus \<noteq> secret))"
proof (intro conjI impI)
  show "Split secret modulus k n rd \<noteq> Some (Inl SecretTooLarge, rd'')"
  proof
    assume "Split secret modulus k n rd = Some (Inl SecretTooLarge, rd'')"
    from Split_error_cases [OF this] assms show False by simp
  qed
next
  assume "Split secret modulus k n rd = Some (Inr shares, rd')"
  from Split_share_range [OF this] assms(2)
  show "\<forall>s \<in> set shares. 0 \<le> s \<and> s < modulus" by simp
next
  assume sp: "Split secret modulus k n rd = Some (Inr shares, rd')"
    and h: "(sint k = 1 \<or> (\<forall>d \<in> {1..<sint n}. gcd d modulus = 1)) \<and> distinct idx
              \<and> length idx = nat (sint k) \<and> set idx \<subseteq> {..<nat (sint n)}"
  from h show "Join (map (\<lambda>i. shares ! i) idx) (map of_nat idx) modulus
                   = (Inr (secret mod modulus) :: 'f error + int)"
    by (intro Split_Join_general [OF assms(2) _ sp]) simp_all
  from assms(2) show "0 \<le> secret mod modulus" by simp
  with assms(1) show "secret mod modulus \<noteq> secret" by simp
qed

lemma Split_example_negative:
  "Split (- 1) 4 2 2 (Inr 0 ## sconst (Inl ())) = Some (Inr [0, 1], sconst (Inl ()))"
proof -
  have c: "nat (sint (2::goint) - 1) = Suc 0" by simp
  have r: "randomNumber (Inr 0 ## sconst (Inl ())) 3 = Some (Inr 0, sconst (Inl ()))"
    apply (simp add: randomNumber_def BitLen_3)
    apply (subst randomLoop.simps)
    apply (simp add: SetBytes_def)
    done
  have e: "[0..<2] = [0, Suc 0]" by (simp add: upt_rec)
  have u: "[1..2::int] = [1, 2]" by (simp add: upto_rec1)
  show ?thesis
    by (simp add: Split_def c r u evalAt_def e bigMod_def)
qed

theorem Split_negative_secret_witness:
  "(- 1 :: int) < 0 \<and> (0 :: int) < 4
   \<and> Split (- 1) 4 2 2 (Inr 0 ## sconst (Inl ())) = Some (Inr [0, 1], sconst (Inl ()))
   \<and> gcd (1 :: int) 4 = 1 \<and> distinct [1, 0 :: nat]
   \<and> length [1, 0 :: nat] = nat (sint (2 :: goint))
   \<and> set [1, 0 :: nat] \<subseteq> {..<nat (sint (2 :: goint))}
   \<and> (0 :: int) \<le> 0 \<and> (0 :: int) < 4 \<and> (0 :: int) \<le> 1 \<and> (1 :: int) < 4
   \<and> Join (map (\<lambda>i. [0, 1] ! i) [1, 0]) (map of_nat [1, 0]) 4
       = (Inr (- 1 mod 4) :: unit error + int)
   \<and> (- 1 :: int) mod 4 = 3"
proof -
  have d: "{1..<sint (2 :: goint)} = {1}" by auto
  have h: "(sint (2 :: goint) = 1 \<or> (\<forall>d \<in> {1..<sint (2 :: goint)}. gcd d (4 :: int) = 1))
      \<and> distinct [1, 0 :: nat]
      \<and> length [1, 0 :: nat] = nat (sint (2 :: goint))
      \<and> set [1, 0 :: nat] \<subseteq> {..<nat (sint (2 :: goint))}"
    unfolding d by simp
  have a: "(- 1 :: int) < 0" "(0 :: int) < 4" by simp_all
  from Split_negative_secret [OF a, of 2 2 "Inr 0 ## sconst (Inl ())" _ "[0, 1]"
      "sconst (Inl ())" "[1, 0]", where ?'f = unit]
    Split_example_negative h
  have "Join (map (\<lambda>i. [0, 1] ! i) [1, 0]) (map of_nat [1, 0]) 4
       = (Inr (- 1 mod 4) :: unit error + int)" by blast
  with Split_example_negative show ?thesis by simp
qed

text \<open>
  Claim C9 as stated has no condition on the modulus and none on \<open>n\<close>. For the prime
  modulus 2 and \<open>n = 3\<close>, the shares at the positions 0 and 2 join to 0, and
  \<open>secret mod modulus\<close> is 1. For the modulus 4, which is not prime, and \<open>n = 3\<close>, the
  shares at the positions 0 and 2 join to 2, and \<open>secret mod modulus\<close> is 3. For the
  negative modulus \<open>- 5\<close> the secret \<open>- 7\<close> is below the modulus and the share 3 is not in
  \<open>[0, modulus)\<close>.
\<close>

theorem Split_negative_secret_counterexample:
  "(- 1 :: int) < 0 \<and> (- 1 :: int) < 2 \<and> is_prime 2
   \<and> (1 :: int) \<le> sint (2 :: goint) \<and> sint (2 :: goint) \<le> sint (3 :: goint)
   \<and> Split (- 1) 2 2 3 (Inr 0 ## sconst (Inl ())) = Some (Inr [0, 1, 0], sconst (Inl ()))
   \<and> distinct [0, 2 :: nat] \<and> length [0, 2 :: nat] = nat (sint (2 :: goint))
   \<and> set [0, 2 :: nat] \<subseteq> {..<nat (sint (3 :: goint))}
   \<and> Join (map (\<lambda>i. [0, 1, 0] ! i) [0, 2]) (map of_nat [0, 2]) 2 = (Inr 0 :: unit error + int)
   \<and> (- 1 :: int) mod 2 = 1
   \<and> (- 1 :: int) < 4 \<and> sint (3 :: goint) \<le> 4
   \<and> Split (- 1) 4 2 3 (Inr 0 ## sconst (Inl ())) = Some (Inr [0, 1, 2], sconst (Inl ()))
   \<and> Join (map (\<lambda>i. [0, 1, 2] ! i) [0, 2]) (map of_nat [0, 2]) 4 = (Inr 2 :: unit error + int)
   \<and> (- 1 :: int) mod 4 = 3
   \<and> (- 7 :: int) < 0 \<and> (- 7 :: int) < - 5
   \<and> Split (- 7) (- 5) 1 1 (sconst (Inr 0) :: unit reader) = Some (Inr [3], sconst (Inr 0))
   \<and> \<not> (3 :: int) < - 5"
proof -
  have c: "nat (sint (2::goint) - 1) = Suc 0" by simp
  have b: "BitLen 1 = 1" by (simp add: BitLen_def bitLenNat.simps)
  have r: "randomNumber (Inr 0 ## sconst (Inl ())) 1 = Some (Inr 0, sconst (Inl ()))"
    apply (simp add: randomNumber_def b)
    apply (subst randomLoop.simps)
    apply (simp add: SetBytes_def)
    done
  have r3: "randomNumber (Inr 0 ## sconst (Inl ())) 3 = Some (Inr 0, sconst (Inl ()))"
    apply (simp add: randomNumber_def BitLen_3)
    apply (subst randomLoop.simps)
    apply (simp add: SetBytes_def)
    done
  have e: "[0..<2] = [0, Suc 0]" by (simp add: upt_rec)
  have u: "[1..3::int] = [1, 2, 3]" by (simp add: upto_rec1)
  have u1: "[1..1::int] = [1]" by (simp add: upto_rec1)
  have s2: "Split (- 1) 2 2 3 (Inr 0 ## sconst (Inl ())) = Some (Inr [0, 1, 0], sconst (Inl ()))"
    by (simp add: Split_def c r u evalAt_def e bigMod_def)
  have j2: "Join (map (\<lambda>i. [0, 1, 0] ! i) [0, 2]) (map of_nat [0, 2]) 2 = (Inr 0 :: unit error + int)"
    by (simp add: Join_def e Let_def bigMod_def)
  have s4: "Split (- 1) 4 2 3 (Inr 0 ## sconst (Inl ())) = Some (Inr [0, 1, 2], sconst (Inl ()))"
    by (simp add: Split_def c r3 u evalAt_def e bigMod_def)
  have e1: "egcd 2 4 = (1, 0)" by (simp add: egcd.simps)
  have j4: "Join (map (\<lambda>i. [0, 1, 2] ! i) [0, 2]) (map of_nat [0, 2]) 4 = (Inr 2 :: unit error + int)"
    by (simp add: Join_def e Let_def xcoord_examples diffNorm_def invNorm_def GCD_x_def
        GCD_x_neg_def e1 bigMod_def)
  have s5: "Split (- 7) (- 5) 1 1 (sconst (Inr 0) :: unit reader) = Some (Inr [3], sconst (Inr 0))"
    by (simp add: Split_def u1 evalAt_def bigMod_def)
  from is_prime_2 s2 j2 s4 j4 s5 show ?thesis by simp
qed

end
